theory Spec2Isabelle
  imports Complex_Main "HOL-Library.Sublist"
begin

section \<open>JavaScript strings\<close>

text \<open>
  A JavaScript string is a sequence of UTF-16 code units. The functions modelled below
  (\<^verbatim>\<open>trim\<close>, the regular expressions without the \<^verbatim>\<open>u\<close> flag, \<^verbatim>\<open>JSON.parse\<close>,
  \<^verbatim>\<open>Number\<close>) all work on code units, so a string is a list of code units, each a
  natural number. \<open>js\<close> writes an ASCII literal as such a list.
\<close>

type_synonym jsstring = "nat list"

definition js :: "string \<Rightarrow> jsstring" where
  "js s = map of_char s"

text \<open>
  The white space of \<^verbatim>\<open>String.prototype.trim\<close>, of the class \<^verbatim>\<open>\s\<close> and of
  \<^verbatim>\<open>StringToNumber\<close> (WhiteSpace and LineTerminator of ECMA-262): TAB, LF, VT, FF, CR,
  SP, NBSP, U+1680, U+2000..U+200A, U+2028, U+2029, U+202F, U+205F, U+3000, U+FEFF.
\<close>

definition is_ws :: "nat \<Rightarrow> bool" where
  "is_ws c \<longleftrightarrow>
     c = 9 \<or> c = 10 \<or> c = 11 \<or> c = 12 \<or> c = 13 \<or> c = 32 \<or> c = 160 \<or> c = 5760 \<or>
     (8192 \<le> c \<and> c \<le> 8202) \<or> c = 8232 \<or> c = 8233 \<or> c = 8239 \<or> c = 8287 \<or>
     c = 12288 \<or> c = 65279"

definition trim :: "jsstring \<Rightarrow> jsstring" where
  "trim s = rev (dropWhile is_ws (rev (dropWhile is_ws s)))"

section \<open>JavaScript numbers\<close>

text \<open>
  A Number is NaN, an infinity or a finite value. Finite values are modelled by the
  reals with exact arithmetic. On the values the score code computes with this is what
  IEEE doubles do: \<^verbatim>\<open>Math.min\<close> and \<^verbatim>\<open>Math.max\<close> select one of their arguments,
  doubling and halving a double in the range 0..15 is exact, \<^verbatim>\<open>Math.round\<close> is exact,
  and sums and differences of multiples of 0.5 in that range are exact. The two zeros
  of IEEE are one value here.
\<close>

datatype jsnum = NaN | NegInf | Fin real | PosInf

fun js_neg :: "jsnum \<Rightarrow> jsnum" where
  "js_neg NaN = NaN"
| "js_neg NegInf = PosInf"
| "js_neg (Fin x) = Fin (- x)"
| "js_neg PosInf = NegInf"

fun js_add :: "jsnum \<Rightarrow> jsnum \<Rightarrow> jsnum" where
  "js_add (Fin x) (Fin y) = Fin (x + y)"
| "js_add NaN b = NaN"
| "js_add a NaN = NaN"
| "js_add PosInf NegInf = NaN"
| "js_add NegInf PosInf = NaN"
| "js_add PosInf b = PosInf"
| "js_add NegInf b = NegInf"
| "js_add (Fin x) b = b"

definition js_sub :: "jsnum \<Rightarrow> jsnum \<Rightarrow> jsnum" where
  "js_sub a b = js_add a (js_neg b)"

fun is_negative :: "jsnum \<Rightarrow> bool" where
  "is_negative NegInf = True"
| "is_negative (Fin x) = (x < 0)"
| "is_negative a = False"

definition signed_inf :: "bool \<Rightarrow> jsnum" where
  "signed_inf negative = (if negative then NegInf else PosInf)"

fun js_mul :: "jsnum \<Rightarrow> jsnum \<Rightarrow> jsnum" where
  "js_mul (Fin x) (Fin y) = Fin (x * y)"
| "js_mul NaN b = NaN"
| "js_mul a NaN = NaN"
| "js_mul a b =
     (if a = Fin 0 \<or> b = Fin 0 then NaN else signed_inf (is_negative a \<noteq> is_negative b))"

text \<open>Division; a zero divisor is taken as the positive zero.\<close>

fun js_div :: "jsnum \<Rightarrow> jsnum \<Rightarrow> jsnum" where
  "js_div (Fin x) (Fin y) =
     (if y = 0 then (if x = 0 then NaN else signed_inf (x < 0)) else Fin (x / y))"
| "js_div NaN b = NaN"
| "js_div a NaN = NaN"
| "js_div (Fin x) b = Fin 0"
| "js_div a (Fin y) = signed_inf (is_negative a \<noteq> (y < 0))"
| "js_div a b = NaN"

text \<open>The comparison operators: every comparison with NaN is false.\<close>

fun js_lt :: "jsnum \<Rightarrow> jsnum \<Rightarrow> bool" where
  "js_lt (Fin x) (Fin y) = (x < y)"
| "js_lt NaN b = False"
| "js_lt a NaN = False"
| "js_lt PosInf b = False"
| "js_lt a NegInf = False"
| "js_lt a b = True"

definition js_gt :: "jsnum \<Rightarrow> jsnum \<Rightarrow> bool" where
  "js_gt a b = js_lt b a"

definition js_le :: "jsnum \<Rightarrow> jsnum \<Rightarrow> bool" where
  "js_le a b \<longleftrightarrow> js_lt a b \<or> (a \<noteq> NaN \<and> a = b)"

definition js_ge :: "jsnum \<Rightarrow> jsnum \<Rightarrow> bool" where
  "js_ge a b = js_le b a"

text \<open>\<^verbatim>\<open>a !== b\<close> on numbers: NaN differs from everything, itself included.\<close>

definition js_neq :: "jsnum \<Rightarrow> jsnum \<Rightarrow> bool" where
  "js_neq a b \<longleftrightarrow> a = NaN \<or> b = NaN \<or> a \<noteq> b"

text \<open>
  \<^verbatim>\<open>Math.min\<close> and \<^verbatim>\<open>Math.max\<close> return NaN when an argument is NaN.
  \<^verbatim>\<open>Math.round\<close> rounds to the nearest integer, a tie towards plus infinity.
\<close>

definition Math_min :: "jsnum \<Rightarrow> jsnum \<Rightarrow> jsnum" where
  "Math_min a b = (if a = NaN \<or> b = NaN then NaN else if js_lt b a then b else a)"

definition Math_max :: "jsnum \<Rightarrow> jsnum \<Rightarrow> jsnum" where
  "Math_max a b = (if a = NaN \<or> b = NaN then NaN else if js_lt a b then b else a)"

fun Math_round :: "jsnum \<Rightarrow> jsnum" where
  "Math_round (Fin x) = Fin (of_int \<lfloor>x + 1 / 2\<rfloor>)"
| "Math_round a = a"

section \<open>Coercion of a raw sub-score: \<^verbatim>\<open>Number(x || 0)\<close>\<close>

text \<open>
  The grading data comes from \<^verbatim>\<open>JSON.parse\<close> and is typed \<^verbatim>\<open>any\<close>. A raw sub-score
  is a missing property (\<^verbatim>\<open>undefined\<close>) or a JSON scalar. Arrays and objects, whose
  conversion runs through \<^verbatim>\<open>ToPrimitive\<close>, are not part of the type \<open>jsval\<close>; what
  is proved of the normalisation below is proved for all four numbers, so for whatever
  number such a conversion returns. A conversion that throws instead (\<^verbatim>\<open>TypeError\<close>, for
  an object whose \<^verbatim>\<open>valueOf\<close> and \<^verbatim>\<open>toString\<close> are not callable) is outside the
  model: \<open>coerce\<close> is total on \<open>jsval\<close>.
\<close>

datatype jsval = Undefined | Null | Boolean bool | Number jsnum | String jsstring

fun ToBoolean :: "jsval \<Rightarrow> bool" where
  "ToBoolean Undefined = False"
| "ToBoolean Null = False"
| "ToBoolean (Boolean b) = b"
| "ToBoolean (Number n) = (n \<noteq> Fin 0 \<and> n \<noteq> NaN)"
| "ToBoolean (String s) = (s \<noteq> [])"

text \<open>
  \<^verbatim>\<open>StringToNumber\<close> of ECMA-262: the string without its surrounding white space is
  empty (the value 0), a StrNumericLiteral, or anything else (NaN). The value of a
  literal is its mathematical value; the rounding to the nearest double is not modelled,
  so the model and \<^verbatim>\<open>Number\<close> can differ on a literal that is no double, such as
  \<^verbatim>\<open>2.2499999999999999999\<close>. The literals used in the statements below are doubles.
\<close>

definition is_decimal_digit :: "nat \<Rightarrow> bool" where
  "is_decimal_digit c \<longleftrightarrow> 48 \<le> c \<and> c \<le> 57"

definition digit_of :: "nat \<Rightarrow> nat" where
  "digit_of c =
     (if 48 \<le> c \<and> c \<le> 57 then c - 48
      else if 97 \<le> c \<and> c \<le> 102 then c - 87
      else if 65 \<le> c \<and> c \<le> 70 then c - 55
      else 36)"

definition digits_value :: "nat \<Rightarrow> jsstring \<Rightarrow> nat" where
  "digits_value base ds = foldl (\<lambda>a c. base * a + digit_of c) 0 ds"

text \<open>ExponentPart, optional: \<^verbatim>\<open>[eE][+-]?[0-9]+\<close> up to the end of the literal.\<close>

definition ExponentPart :: "jsstring \<Rightarrow> int option" where
  "ExponentPart s =
     (case s of
        [] \<Rightarrow> Some 0
      | e # t \<Rightarrow>
          if e = 101 \<or> e = 69 then
            (let negative = (t \<noteq> [] \<and> hd t = 45);
                 ds = (if t \<noteq> [] \<and> (hd t = 43 \<or> hd t = 45) then tl t else t)
             in if ds \<noteq> [] \<and> list_all is_decimal_digit ds
                then Some (if negative then - int (digits_value 10 ds) else int (digits_value 10 ds))
                else None)
          else None)"

text \<open>
  StrUnsignedDecimalLiteral: \<^verbatim>\<open>Infinity\<close>, or digits with an optional fraction and an
  optional exponent, where the integer part or the fraction has a digit.
\<close>

definition StrUnsignedDecimalLiteral :: "jsstring \<Rightarrow> jsnum option" where
  "StrUnsignedDecimalLiteral s =
     (if s = js ''Infinity'' then Some PosInf
      else
        let ip = takeWhile is_decimal_digit s;
            r1 = dropWhile is_decimal_digit s;
            dot = (r1 \<noteq> [] \<and> hd r1 = 46);
            fp = (if dot then takeWhile is_decimal_digit (tl r1) else []);
            r2 = (if dot then dropWhile is_decimal_digit (tl r1) else r1);
            mantissa = real (digits_value 10 ip) + real (digits_value 10 fp) / 10 ^ length fp
        in if ip = [] \<and> fp = [] then None
           else (case ExponentPart r2 of
                   None \<Rightarrow> None
                 | Some e \<Rightarrow>
                     Some (Fin (if 0 \<le> e then mantissa * 10 ^ nat e
                                else mantissa / 10 ^ nat (- e)))))"

text \<open>NonDecimalIntegerLiteral: \<^verbatim>\<open>0b\<close>, \<^verbatim>\<open>0o\<close> or \<^verbatim>\<open>0x\<close> (either case) and digits.\<close>

definition NonDecimalIntegerLiteral :: "jsstring \<Rightarrow> jsnum option" where
  "NonDecimalIntegerLiteral s =
     (case s of
        z # b # ds \<Rightarrow>
          (let base = (if b = 98 \<or> b = 66 then 2 else if b = 111 \<or> b = 79 then 8
                       else if b = 120 \<or> b = 88 then 16 else 0)
           in if z = 48 \<and> base \<noteq> 0 \<and> ds \<noteq> [] \<and> list_all (\<lambda>c. digit_of c < base) ds
              then Some (Fin (real (digits_value base ds)))
              else None)
      | _ \<Rightarrow> None)"

definition StringToNumber :: "jsstring \<Rightarrow> jsnum" where
  "StringToNumber str =
     (let t = trim str
      in if t = [] then Fin 0
         else (case NonDecimalIntegerLiteral t of
                 Some v \<Rightarrow> v
               | None \<Rightarrow>
                   (let signed = (hd t = 43 \<or> hd t = 45)
                    in case StrUnsignedDecimalLiteral (if signed then tl t else t) of
                         None \<Rightarrow> NaN
                       | Some v \<Rightarrow> if hd t = 45 then js_neg v else v)))"

fun ToNumber :: "jsval \<Rightarrow> jsnum" where
  "ToNumber Undefined = NaN"
| "ToNumber Null = Fin 0"
| "ToNumber (Boolean b) = (if b then Fin 1 else Fin 0)"
| "ToNumber (Number n) = n"
| "ToNumber (String s) = StringToNumber s"

text \<open>\<^verbatim>\<open>x || 0\<close>: the left operand when it is truthy, else the number 0.\<close>

definition or_zero :: "jsval \<Rightarrow> jsval" where
  "or_zero x = (if ToBoolean x then x else Number (Fin 0))"

section \<open>The score normalisation of \<^verbatim>\<open>gradeEssay\<close>\<close>

text \<open>
  \<^verbatim>\<open>
  const clamp = (v, min, max) => Math.max(min, Math.min(max, v));
  const roundHalf = (v) => Math.round(v * 2) / 2;
  \<close>
\<close>

definition clamp :: "jsnum \<Rightarrow> jsnum \<Rightarrow> jsnum \<Rightarrow> jsnum" where
  "clamp v lo hi = Math_max lo (Math_min hi v)"

definition roundHalf :: "jsnum \<Rightarrow> jsnum" where
  "roundHalf v = js_div (Math_round (js_mul v (Fin 2))) (Fin 2)"

text \<open>
  The four dimensions, in the order of \<^verbatim>\<open>dims\<close>, and the table \<^verbatim>\<open>max\<close>.
  \<^verbatim>\<open>subScores\<close> is an object with these four keys: a function of the dimension.
\<close>

datatype dim = Content | Organization | Proficiency | Clarity

definition dims :: "dim list" where
  "dims = [Content, Organization, Proficiency, Clarity]"

fun maxScore :: "dim \<Rightarrow> jsnum" where
  "maxScore Content = Fin 4"
| "maxScore Organization = Fin 3"
| "maxScore Proficiency = Fin 5"
| "maxScore Clarity = Fin 3"

record grading =
  subScores :: "dim \<Rightarrow> jsnum"
  totalScore :: jsnum

definition sum4 :: "(dim \<Rightarrow> jsnum) \<Rightarrow> jsnum" where
  "sum4 ss = js_add (js_add (js_add (ss Content) (ss Organization)) (ss Proficiency)) (ss Clarity)"

text \<open>
  Lines 985 to 990. \<open>coerce\<close> is \<^verbatim>\<open>Number(x || 0)\<close>. Each coerced sub-score is clamped
  to its range and rounded to a half point; the total is the rounded sum. \<open>baseScores\<close>
  takes the four coerced numbers, whatever value they came from.
\<close>

definition coerce :: "jsval \<Rightarrow> jsnum" where
  "coerce x = ToNumber (or_zero x)"

definition baseScores :: "(dim \<Rightarrow> jsnum) \<Rightarrow> grading" where
  "baseScores nums =
     (let c = roundHalf (clamp (nums Content) (Fin 0) (Fin 4));
          o' = roundHalf (clamp (nums Organization) (Fin 0) (Fin 3));
          p = roundHalf (clamp (nums Proficiency) (Fin 0) (Fin 5));
          cl = roundHalf (clamp (nums Clarity) (Fin 0) (Fin 3));
          ss = (\<lambda>d. case d of Content \<Rightarrow> c | Organization \<Rightarrow> o' | Proficiency \<Rightarrow> p | Clarity \<Rightarrow> cl)
      in \<lparr>subScores = ss, totalScore = roundHalf (sum4 ss)\<rparr>)"

text \<open>
  The comparator of the sort (lines 999 to 1004): more room first, then the lower score.
  \<^verbatim>\<open>Array.prototype.sort\<close> is stable; an insertion sort that puts an element behind
  those it compares greater than is the stable sort for a consistent comparator.
\<close>

definition cmp :: "(dim \<Rightarrow> jsnum) \<Rightarrow> dim \<Rightarrow> dim \<Rightarrow> jsnum" where
  "cmp ss a b =
     (let roomA = js_sub (maxScore a) (ss a);
          roomB = js_sub (maxScore b) (ss b)
      in if js_neq roomB roomA then js_sub roomB roomA else js_sub (ss a) (ss b))"

fun insert_sorted :: "('a \<Rightarrow> 'a \<Rightarrow> jsnum) \<Rightarrow> 'a \<Rightarrow> 'a list \<Rightarrow> 'a list" where
  "insert_sorted f x [] = [x]"
| "insert_sorted f x (y # ys) =
     (if js_gt (f x y) (Fin 0) then y # insert_sorted f x ys else x # y # ys)"

definition sort_by :: "('a \<Rightarrow> 'a \<Rightarrow> jsnum) \<Rightarrow> 'a list \<Rightarrow> 'a list" where
  "sort_by f xs = foldr (insert_sorted f) xs []"

text \<open>
  One pass of the loop \<^verbatim>\<open>for (const d of order)\<close> (lines 1006 to 1014, and again 1016
  to 1024) over the state: the sub-scores and the bonus that is left.
  \<^verbatim>\<open>
  if (bonus <= 0) break;
  const room = roundHalf(max[d] - step1Data.subScores[d]);
  const add = Math.min(room, bonus, 0.5);
  if (add > 0) {
    step1Data.subScores[d] = roundHalf(step1Data.subScores[d] + add);
    bonus = roundHalf(bonus - add);
  }
  \<close>
\<close>

fun bonus_pass :: "dim list \<Rightarrow> (dim \<Rightarrow> jsnum) \<times> jsnum \<Rightarrow> (dim \<Rightarrow> jsnum) \<times> jsnum" where
  "bonus_pass [] (ss, bonus) = (ss, bonus)"
| "bonus_pass (d # ds) (ss, bonus) =
     (if js_le bonus (Fin 0) then (ss, bonus)
      else
        let room = roundHalf (js_sub (maxScore d) (ss d));
            add = Math_min (Math_min room bonus) (Fin (1 / 2))
        in if js_gt add (Fin 0)
           then bonus_pass ds (ss(d := roundHalf (js_add (ss d) add)), roundHalf (js_sub bonus add))
           else bonus_pass ds (ss, bonus))"

text \<open>
  Lines 994 to 1033. \<^verbatim>\<open>critical\<close> is the field \<^verbatim>\<open>issueOverview.critical\<close>:
  \<open>Some xs\<close> when it is an array, \<open>None\<close> otherwise (its count is then 0).
\<close>

definition criticalCount :: "'a list option \<Rightarrow> nat" where
  "criticalCount critical = (case critical of Some xs \<Rightarrow> length xs | None \<Rightarrow> 0)"

definition bonus_applies :: "grading \<Rightarrow> 'a list option \<Rightarrow> bool" where
  "bonus_applies g critical \<longleftrightarrow>
     js_ge (totalScore g) (Fin 6) \<and> js_le (totalScore g) (Fin 14) \<and> criticalCount critical \<le> 2"

definition distribute :: "(dim \<Rightarrow> jsnum) \<Rightarrow> (dim \<Rightarrow> jsnum)" where
  "distribute ss =
     (let order = sort_by (cmp ss) dims;
          (ss1, bonus1) = bonus_pass order (ss, Fin 1)
      in if js_gt bonus1 (Fin 0) then fst (bonus_pass order (ss1, bonus1)) else ss1)"

definition calibrate :: "grading \<Rightarrow> 'a list option \<Rightarrow> grading" where
  "calibrate g critical =
     (if bonus_applies g critical
      then (let ss = distribute (subScores g) in \<lparr>subScores = ss, totalScore = roundHalf (sum4 ss)\<rparr>)
      else g)"

text \<open>
  The whole of lines 983 to 1033: on the coerced numbers, and on the raw sub-scores.
\<close>

definition normalize :: "(dim \<Rightarrow> jsnum) \<Rightarrow> 'a list option \<Rightarrow> grading" where
  "normalize nums critical = calibrate (baseScores nums) critical"

definition scoreNormalizer :: "(dim \<Rightarrow> jsval) \<Rightarrow> 'a list option \<Rightarrow> grading" where
  "scoreNormalizer raw critical = normalize (\<lambda>d. coerce (raw d)) critical"

section \<open>\<^verbatim>\<open>JSON.parse\<close>\<close>

text \<open>
  \<^verbatim>\<open>JSON.parse\<close> is a builtin; \<^verbatim>\<open>cleanJsonResponse\<close> calls it to decide whether to
  repair. It is modelled as a pushdown automaton that reads the text one code unit at a
  time, after the JSON grammar of ECMA-404: white space is TAB, LF, CR and SP; a string
  holds no unescaped quote, backslash or control character; a number has no leading
  zeros, and digits on both sides of a decimal point. The members of an object are kept
  in the order of their first occurrence, and a member that repeats a key replaces the
  earlier value. The value of a number is its mathematical value.

  The code units used below: 9 TAB, 10 LF, 13 CR, 32 SP, 34 the double quote, 43 plus,
  44 comma, 45 minus, 46 full stop, 47 slash, 48 to 57 the digits, 58 colon, 91 and 93
  the square brackets, 92 backslash, 96 backtick, 123 and 125 the braces.
\<close>

datatype json =
    JNull
  | JBool bool
  | JNumber real
  | JString jsstring
  | JArray "json list"
  | JObject "(jsstring \<times> json) list"

datatype error = SyntaxError

fun obj_put :: "jsstring \<Rightarrow> json \<Rightarrow> (jsstring \<times> json) list \<Rightarrow> (jsstring \<times> json) list" where
  "obj_put k v [] = [(k, v)]"
| "obj_put k v ((k', v') # kvs) = (if k = k' then (k, v) # kvs else (k', v') # obj_put k v kvs)"

text \<open>
  A frame of the stack is an array under construction, with its elements so far, or an
  object, with its members so far and the key whose value is being read.
\<close>

datatype frame =
    InArray "json list"
  | InObject "(jsstring \<times> json) list" "jsstring option"

datatype strstate = Plain | Escape | Hex nat nat

datatype numstate = Minus | Zero | IntDigits | Dot | FracDigits | Exp | ExpSign | ExpDigits

record numacc =
  negative :: bool
  digits :: nat
  scale :: nat
  exp_negative :: bool
  exponent :: nat

definition num_value :: "numacc \<Rightarrow> real" where
  "num_value a =
     (let m = real (digits a) / 10 ^ scale a;
          v = (if exp_negative a then m / 10 ^ exponent a else m * 10 ^ exponent a)
      in if negative a then - v else v)"

datatype mode =
    ExpectValue
  | ExpectValueOrClose
  | ExpectKeyOrClose
  | ExpectKey
  | ExpectColon
  | AfterValue
  | InString bool strstate jsstring
  | InNumber numstate numacc
  | InLiteral jsstring json
  | Failed

record pstate =
  mode :: mode
  frames :: "frame list"
  result :: "json option"

definition failed :: pstate where
  "failed = \<lparr>mode = Failed, frames = [], result = None\<rparr>"

definition is_json_ws :: "nat \<Rightarrow> bool" where
  "is_json_ws c \<longleftrightarrow> c = 9 \<or> c = 10 \<or> c = 13 \<or> c = 32"

definition is_hex_digit :: "nat \<Rightarrow> bool" where
  "is_hex_digit c \<longleftrightarrow> (48 \<le> c \<and> c \<le> 57) \<or> (97 \<le> c \<and> c \<le> 102) \<or> (65 \<le> c \<and> c \<le> 70)"

text \<open>A value is complete: it is the result, or goes into the innermost frame.\<close>

definition deliver :: "json \<Rightarrow> frame list \<Rightarrow> pstate" where
  "deliver v stk =
     (case stk of
        [] \<Rightarrow> \<lparr>mode = AfterValue, frames = [], result = Some v\<rparr>
      | InArray xs # rest \<Rightarrow> \<lparr>mode = AfterValue, frames = InArray (xs @ [v]) # rest, result = None\<rparr>
      | InObject kvs (Some k) # rest \<Rightarrow>
          \<lparr>mode = AfterValue, frames = InObject (obj_put k v kvs) None # rest, result = None\<rparr>
      | InObject kvs None # rest \<Rightarrow> failed)"

text \<open>After a value: a comma, the closer of the innermost frame, or white space.\<close>

definition after_value :: "pstate \<Rightarrow> nat \<Rightarrow> pstate" where
  "after_value st c =
     (if is_json_ws c then st
      else (case frames st of
              [] \<Rightarrow> failed
            | InArray xs # rest \<Rightarrow>
                if c = 44 then st\<lparr>mode := ExpectValue\<rparr>
                else if c = 93 then deliver (JArray xs) rest
                else failed
            | InObject kvs k # rest \<Rightarrow>
                if c = 44 then st\<lparr>mode := ExpectKey\<rparr>
                else if c = 125 then deliver (JObject kvs) rest
                else failed))"

definition start_value :: "pstate \<Rightarrow> nat \<Rightarrow> pstate" where
  "start_value st c =
     (let zero = \<lparr>negative = False, digits = 0, scale = 0, exp_negative = False, exponent = 0\<rparr>
      in if c = 123 then st\<lparr>mode := ExpectKeyOrClose, frames := InObject [] None # frames st\<rparr>
         else if c = 91 then st\<lparr>mode := ExpectValueOrClose, frames := InArray [] # frames st\<rparr>
         else if c = 34 then st\<lparr>mode := InString False Plain []\<rparr>
         else if c = 45 then st\<lparr>mode := InNumber Minus (zero\<lparr>negative := True\<rparr>)\<rparr>
         else if c = 48 then st\<lparr>mode := InNumber Zero zero\<rparr>
         else if 49 \<le> c \<and> c \<le> 57 then st\<lparr>mode := InNumber IntDigits (zero\<lparr>digits := c - 48\<rparr>)\<rparr>
         else if c = 116 then st\<lparr>mode := InLiteral (js ''rue'') (JBool True)\<rparr>
         else if c = 102 then st\<lparr>mode := InLiteral (js ''alse'') (JBool False)\<rparr>
         else if c = 110 then st\<lparr>mode := InLiteral (js ''ull'') JNull\<rparr>
         else failed)"

definition string_done :: "pstate \<Rightarrow> bool \<Rightarrow> jsstring \<Rightarrow> pstate" where
  "string_done st is_key buf =
     (if is_key then
        (case frames st of
           InObject kvs None # rest \<Rightarrow> st\<lparr>mode := ExpectColon, frames := InObject kvs (Some buf) # rest\<rparr>
         | _ \<Rightarrow> failed)
      else deliver (JString buf) (frames st))"

definition in_string :: "pstate \<Rightarrow> bool \<Rightarrow> strstate \<Rightarrow> jsstring \<Rightarrow> nat \<Rightarrow> pstate" where
  "in_string st is_key e buf c =
     (case e of
        Plain \<Rightarrow>
          if c = 34 then string_done st is_key buf
          else if c = 92 then st\<lparr>mode := InString is_key Escape buf\<rparr>
          else if c < 32 then failed
          else st\<lparr>mode := InString is_key Plain (buf @ [c])\<rparr>
      | Escape \<Rightarrow>
          if c = 34 \<or> c = 92 \<or> c = 47 then st\<lparr>mode := InString is_key Plain (buf @ [c])\<rparr>
          else if c = 98 then st\<lparr>mode := InString is_key Plain (buf @ [8])\<rparr>
          else if c = 102 then st\<lparr>mode := InString is_key Plain (buf @ [12])\<rparr>
          else if c = 110 then st\<lparr>mode := InString is_key Plain (buf @ [10])\<rparr>
          else if c = 114 then st\<lparr>mode := InString is_key Plain (buf @ [13])\<rparr>
          else if c = 116 then st\<lparr>mode := InString is_key Plain (buf @ [9])\<rparr>
          else if c = 117 then st\<lparr>mode := InString is_key (Hex 0 0) buf\<rparr>
          else failed
      | Hex k acc \<Rightarrow>
          if is_hex_digit c then
            (if k = 3 then st\<lparr>mode := InString is_key Plain (buf @ [16 * acc + digit_of c])\<rparr>
             else st\<lparr>mode := InString is_key (Hex (k + 1) (16 * acc + digit_of c)) buf\<rparr>)
          else failed)"

text \<open>
  Inside a number. A code unit that cannot continue a complete number ends it, and is
  then read as what follows a value.
\<close>

definition number_end :: "pstate \<Rightarrow> numacc \<Rightarrow> nat \<Rightarrow> pstate" where
  "number_end st a c = after_value (deliver (JNumber (num_value a)) (frames st)) c"

definition in_number :: "pstate \<Rightarrow> numstate \<Rightarrow> numacc \<Rightarrow> nat \<Rightarrow> pstate" where
  "in_number st n a c =
     (let digit = is_decimal_digit c; e = (c = 101 \<or> c = 69); d = c - 48
      in case n of
           Minus \<Rightarrow>
             if c = 48 then st\<lparr>mode := InNumber Zero a\<rparr>
             else if digit then st\<lparr>mode := InNumber IntDigits (a\<lparr>digits := d\<rparr>)\<rparr>
             else failed
         | Zero \<Rightarrow>
             if c = 46 then st\<lparr>mode := InNumber Dot a\<rparr>
             else if e then st\<lparr>mode := InNumber Exp a\<rparr>
             else if digit then failed
             else number_end st a c
         | IntDigits \<Rightarrow>
             if digit then st\<lparr>mode := InNumber IntDigits (a\<lparr>digits := 10 * digits a + d\<rparr>)\<rparr>
             else if c = 46 then st\<lparr>mode := InNumber Dot a\<rparr>
             else if e then st\<lparr>mode := InNumber Exp a\<rparr>
             else number_end st a c
         | Dot \<Rightarrow>
             if digit
             then st\<lparr>mode := InNumber FracDigits (a\<lparr>digits := 10 * digits a + d, scale := scale a + 1\<rparr>)\<rparr>
             else failed
         | FracDigits \<Rightarrow>
             if digit
             then st\<lparr>mode := InNumber FracDigits (a\<lparr>digits := 10 * digits a + d, scale := scale a + 1\<rparr>)\<rparr>
             else if e then st\<lparr>mode := InNumber Exp a\<rparr>
             else number_end st a c
         | Exp \<Rightarrow>
             if c = 43 then st\<lparr>mode := InNumber ExpSign a\<rparr>
             else if c = 45 then st\<lparr>mode := InNumber ExpSign (a\<lparr>exp_negative := True\<rparr>)\<rparr>
             else if digit then st\<lparr>mode := InNumber ExpDigits (a\<lparr>exponent := d\<rparr>)\<rparr>
             else failed
         | ExpSign \<Rightarrow>
             if digit then st\<lparr>mode := InNumber ExpDigits (a\<lparr>exponent := d\<rparr>)\<rparr>
             else failed
         | ExpDigits \<Rightarrow>
             if digit then st\<lparr>mode := InNumber ExpDigits (a\<lparr>exponent := 10 * exponent a + d\<rparr>)\<rparr>
             else number_end st a c)"

definition step :: "pstate \<Rightarrow> nat \<Rightarrow> pstate" where
  "step st c =
     (case mode st of
        ExpectValue \<Rightarrow> if is_json_ws c then st else start_value st c
      | ExpectValueOrClose \<Rightarrow>
          if is_json_ws c then st
          else if c = 93 then
            (case frames st of InArray xs # rest \<Rightarrow> deliver (JArray xs) rest | _ \<Rightarrow> failed)
          else start_value st c
      | ExpectKeyOrClose \<Rightarrow>
          if is_json_ws c then st
          else if c = 34 then st\<lparr>mode := InString True Plain []\<rparr>
          else if c = 125 then
            (case frames st of InObject kvs k # rest \<Rightarrow> deliver (JObject kvs) rest | _ \<Rightarrow> failed)
          else failed
      | ExpectKey \<Rightarrow>
          if is_json_ws c then st
          else if c = 34 then st\<lparr>mode := InString True Plain []\<rparr>
          else failed
      | ExpectColon \<Rightarrow>
          if is_json_ws c then st
          else if c = 58 then st\<lparr>mode := ExpectValue\<rparr>
          else failed
      | AfterValue \<Rightarrow> after_value st c
      | InString is_key e buf \<Rightarrow> in_string st is_key e buf c
      | InNumber n a \<Rightarrow> in_number st n a c
      | InLiteral rest v \<Rightarrow>
          (case rest of
             [] \<Rightarrow> failed
           | x # xs \<Rightarrow>
               if c \<noteq> x then failed
               else if xs = [] then deliver v (frames st)
               else st\<lparr>mode := InLiteral xs v\<rparr>)
      | Failed \<Rightarrow> failed)"

text \<open>At the end of the text the value must be complete and every frame closed.\<close>

definition finish :: "pstate \<Rightarrow> error + json" where
  "finish st =
     (case mode st of
        AfterValue \<Rightarrow> (case result st of Some v \<Rightarrow> Inr v | None \<Rightarrow> Inl SyntaxError)
      | InNumber n a \<Rightarrow>
          if (n = Zero \<or> n = IntDigits \<or> n = FracDigits \<or> n = ExpDigits) \<and> frames st = []
          then Inr (JNumber (num_value a))
          else Inl SyntaxError
      | _ \<Rightarrow> Inl SyntaxError)"

definition JSON_parse :: "jsstring \<Rightarrow> error + json" where
  "JSON_parse text =
     finish (foldl step \<lparr>mode = ExpectValue, frames = [], result = None\<rparr> text)"

section \<open>\<^verbatim>\<open>tryRepairTruncatedJson\<close>\<close>

text \<open>
  The first loop (lines 201 to 209) counts the quotes that do not follow a backslash.
  \<^verbatim>\<open>lastCharBeforeEnd\<close> starts as the empty string: \<open>None\<close>.
\<close>

definition quote_step :: "bool \<times> nat option \<Rightarrow> nat \<Rightarrow> bool \<times> nat option" where
  "quote_step st ch =
     (case st of (inString, lastCharBeforeEnd) \<Rightarrow>
        (if ch = 34 \<and> lastCharBeforeEnd \<noteq> Some 92 then \<not> inString else inString, Some ch))"

text \<open>
  \<^verbatim>\<open>repaired.replace(/,\s*"[^"]*"\s*:\s*("[^"]*)?$/s, '')\<close> (line 216). The pattern
  has no \<^verbatim>\<open>g\<close> flag: only the leftmost match is replaced. Each function below
  says whether a tail of the pattern matches the whole of the string, trying the longer
  repetition first and backing off, as the regular expression engine does:
  \<open>dangling_value\<close> is \<^verbatim>\<open>[^"]*$\<close>, \<open>dangling_opt\<close> is \<^verbatim>\<open>("[^"]*)?$\<close>,
  \<open>dangling_ws3\<close> is \<^verbatim>\<open>\s*("[^"]*)?$\<close>, \<open>dangling_colon\<close> is \<^verbatim>\<open>:\s*("[^"]*)?$\<close>,
  \<open>dangling_ws2\<close> puts \<^verbatim>\<open>\s*\<close> before that, \<open>dangling_key\<close> is \<^verbatim>\<open>[^"]*"\<close> and
  the rest (the class \<^verbatim>\<open>[^"]\<close> and the quote exclude each other, so there is nothing
  to back off to), \<open>dangling_quote\<close> is \<^verbatim>\<open>"[^"]*"\<close> and the rest, \<open>dangling_ws1\<close>
  puts \<^verbatim>\<open>\s*\<close> before that, and \<open>dangling_here\<close> is the whole pattern.
\<close>

fun dangling_value :: "jsstring \<Rightarrow> bool" where
  "dangling_value [] = True"
| "dangling_value (c # cs) = (if c \<noteq> 34 then dangling_value cs else False)"

definition dangling_opt :: "jsstring \<Rightarrow> bool" where
  "dangling_opt s =
     (case s of [] \<Rightarrow> True | c # cs \<Rightarrow> if c = 34 then dangling_value cs else False)"

fun dangling_ws3 :: "jsstring \<Rightarrow> bool" where
  "dangling_ws3 [] = dangling_opt []"
| "dangling_ws3 (c # cs) =
     (if is_ws c then (if dangling_ws3 cs then True else dangling_opt (c # cs))
      else dangling_opt (c # cs))"

definition dangling_colon :: "jsstring \<Rightarrow> bool" where
  "dangling_colon s =
     (case s of [] \<Rightarrow> False | c # cs \<Rightarrow> if c = 58 then dangling_ws3 cs else False)"

fun dangling_ws2 :: "jsstring \<Rightarrow> bool" where
  "dangling_ws2 [] = dangling_colon []"
| "dangling_ws2 (c # cs) =
     (if is_ws c then (if dangling_ws2 cs then True else dangling_colon (c # cs))
      else dangling_colon (c # cs))"

fun dangling_key :: "jsstring \<Rightarrow> bool" where
  "dangling_key [] = False"
| "dangling_key (c # cs) = (if c \<noteq> 34 then dangling_key cs else dangling_ws2 cs)"

definition dangling_quote :: "jsstring \<Rightarrow> bool" where
  "dangling_quote s =
     (case s of [] \<Rightarrow> False | c # cs \<Rightarrow> if c = 34 then dangling_key cs else False)"

fun dangling_ws1 :: "jsstring \<Rightarrow> bool" where
  "dangling_ws1 [] = dangling_quote []"
| "dangling_ws1 (c # cs) =
     (if is_ws c then (if dangling_ws1 cs then True else dangling_quote (c # cs))
      else dangling_quote (c # cs))"

definition dangling_here :: "jsstring \<Rightarrow> bool" where
  "dangling_here s =
     (case s of [] \<Rightarrow> False | c # cs \<Rightarrow> if c = 44 then dangling_ws1 cs else False)"

text \<open>
  The replacement: the text before the leftmost match, the empty replacement, and the
  text after the match, which is empty since the pattern ends with \<^verbatim>\<open>$\<close>.
\<close>

fun replace_dangling :: "jsstring \<Rightarrow> jsstring" where
  "replace_dangling [] = []"
| "replace_dangling (c # cs) = (if dangling_here (c # cs) then [] else c # replace_dangling cs)"

text \<open>\<^verbatim>\<open>repaired.replace(/,\s*$/s, '')\<close> (line 217), in the same way.\<close>

definition trailing_comma_here :: "jsstring \<Rightarrow> bool" where
  "trailing_comma_here s =
     (case s of [] \<Rightarrow> False | c # cs \<Rightarrow> if c = 44 then list_all is_ws cs else False)"

fun replace_trailing_comma :: "jsstring \<Rightarrow> jsstring" where
  "replace_trailing_comma [] = []"
| "replace_trailing_comma (c # cs) =
     (if trailing_comma_here (c # cs) then [] else c # replace_trailing_comma cs)"

text \<open>
  The second loop (lines 223 to 233) keeps the stack of closers that are due. The loop
  runs over code points; a code point outside the Basic Multilingual Plane is two code
  units, neither of which is one of the characters tested, and the branches taken for
  them leave the state as it is after one of them, so the loop over code units computes
  the same.
  \<^verbatim>\<open>
  if (escape) { escape = false; continue; }
  if (ch === '\\' && inStr) { escape = true; continue; }
  if (ch === '"') { inStr = !inStr; continue; }
  if (inStr) continue;
  if (ch === '{') stack.push('}');
  else if (ch === '[') stack.push(']');
  else if (ch === '}' || ch === ']') {
    if (stack.length > 0 && stack[stack.length - 1] === ch) stack.pop();
  }
  \<close>
\<close>

definition bracket_step :: "jsstring \<times> bool \<times> bool \<Rightarrow> nat \<Rightarrow> jsstring \<times> bool \<times> bool" where
  "bracket_step st ch =
     (case st of (stack, inStr, escape) \<Rightarrow>
        if escape then (stack, inStr, False)
        else if ch = 92 \<and> inStr then (stack, inStr, True)
        else if ch = 34 then (stack, \<not> inStr, escape)
        else if inStr then (stack, inStr, escape)
        else if ch = 123 then (stack @ [125], inStr, escape)
        else if ch = 91 then (stack @ [93], inStr, escape)
        else if ch = 125 \<or> ch = 93 then
          (if stack \<noteq> [] \<and> last stack = ch then (butlast stack, inStr, escape)
           else (stack, inStr, escape))
        else (stack, inStr, escape))"

text \<open>\<^verbatim>\<open>while (stack.length > 0) { repaired += stack.pop(); }\<close>\<close>

function close_all :: "jsstring \<Rightarrow> jsstring \<Rightarrow> jsstring" where
  "close_all repaired stack =
     (if stack \<noteq> [] then close_all (repaired @ [last stack]) (butlast stack) else repaired)"
  by pat_completeness auto
termination
  by (relation "measure (\<lambda>(repaired, stack). length stack)") auto

declare close_all.simps [simp del]

definition tryRepairTruncatedJson :: "jsstring \<Rightarrow> jsstring" where
  "tryRepairTruncatedJson text =
     (let repaired = text;
          inString = fst (foldl quote_step (False, None) repaired);
          repaired = (if inString then repaired @ [34] else repaired);
          repaired = replace_dangling repaired;
          repaired = replace_trailing_comma repaired;
          stack = fst (foldl bracket_step ([], False, False) repaired)
      in close_all repaired stack)"

section \<open>\<^verbatim>\<open>cleanJsonResponse\<close>\<close>

text \<open>
  \<^verbatim>\<open>cleaned.match(/```(?:json)?\s*\n?([\s\S]*?)\n?```/)\<close> (line 165), of which the
  code uses the first group. Each function matches a tail of the pattern at the head of
  the string and returns the group's text, trying the alternatives in the order of the
  regular expression engine: a greedy item takes as much as it can and then backs off,
  the lazy group takes as little as it can and then grows.
  \<open>fence_close\<close> is \<^verbatim>\<open>\n?```\<close>; \<open>fence_group\<close> is \<^verbatim>\<open>([\s\S]*?)\n?```\<close>;
  \<open>fence_nl\<close> puts \<^verbatim>\<open>\n?\<close> before it, \<open>fence_ws\<close> puts \<^verbatim>\<open>\s*\n?\<close> before it,
  \<open>fence_tag\<close> puts \<^verbatim>\<open>(?:json)?\s*\n?\<close> before it, and \<open>fence_here\<close> is the whole
  pattern at the head of the string. \<open>codeBlockMatch\<close> is the leftmost match.
\<close>

definition ticks :: jsstring where
  "ticks = [96, 96, 96]"

definition fence_close :: "jsstring \<Rightarrow> bool" where
  "fence_close s \<longleftrightarrow>
     (case s of [] \<Rightarrow> False | c # cs \<Rightarrow> c = 10 \<and> prefix ticks cs) \<or> prefix ticks s"

fun fence_group :: "jsstring \<Rightarrow> jsstring option" where
  "fence_group [] = (if fence_close [] then Some [] else None)"
| "fence_group (c # cs) =
     (if fence_close (c # cs) then Some [] else map_option ((#) c) (fence_group cs))"

definition fence_nl :: "jsstring \<Rightarrow> jsstring option" where
  "fence_nl s =
     (case s of
        [] \<Rightarrow> fence_group s
      | c # cs \<Rightarrow>
          if c = 10 then (case fence_group cs of Some g \<Rightarrow> Some g | None \<Rightarrow> fence_group s)
          else fence_group s)"

fun fence_ws :: "jsstring \<Rightarrow> jsstring option" where
  "fence_ws [] = fence_nl []"
| "fence_ws (c # cs) =
     (if is_ws c then (case fence_ws cs of Some g \<Rightarrow> Some g | None \<Rightarrow> fence_nl (c # cs))
      else fence_nl (c # cs))"

definition fence_tag :: "jsstring \<Rightarrow> jsstring option" where
  "fence_tag s =
     (if prefix (js ''json'') s
      then (case fence_ws (drop 4 s) of Some g \<Rightarrow> Some g | None \<Rightarrow> fence_ws s)
      else fence_ws s)"

definition fence_here :: "jsstring \<Rightarrow> jsstring option" where
  "fence_here s = (if prefix ticks s then fence_tag (drop 3 s) else None)"

fun codeBlockMatch :: "jsstring \<Rightarrow> jsstring option" where
  "codeBlockMatch [] = fence_here []"
| "codeBlockMatch (c # cs) =
     (case fence_here (c # cs) of Some g \<Rightarrow> Some g | None \<Rightarrow> codeBlockMatch cs)"

text \<open>
  \<^verbatim>\<open>cleaned.search(/[\[{]/)\<close> and \<^verbatim>\<open>cleaned.lastIndexOf(ch)\<close>: an index, or -1.
\<close>

fun search_open :: "jsstring \<Rightarrow> int" where
  "search_open [] = - 1"
| "search_open (c # cs) =
     (if c = 91 \<or> c = 123 then 0
      else (let r = search_open cs in if r = - 1 then - 1 else r + 1))"

fun lastIndexOf :: "jsstring \<Rightarrow> nat \<Rightarrow> int" where
  "lastIndexOf [] ch = - 1"
| "lastIndexOf (c # cs) ch =
     (let r = lastIndexOf cs ch
      in if r \<noteq> - 1 then r + 1 else if c = ch then 0 else - 1)"

definition startsWith :: "jsstring \<Rightarrow> nat \<Rightarrow> bool" where
  "startsWith s ch \<longleftrightarrow> s \<noteq> [] \<and> hd s = ch"

definition endsWith :: "jsstring \<Rightarrow> nat \<Rightarrow> bool" where
  "endsWith s ch \<longleftrightarrow> s \<noteq> [] \<and> last s = ch"

text \<open>
  Lines 161 to 194: the three rewritings of \<^verbatim>\<open>cleaned\<close> (lines 165 to 168, 171 to
  176 and 179 to 184), then the \<^verbatim>\<open>try\<close>. The only operation that throws is
  \<^verbatim>\<open>JSON.parse\<close>, inside the \<^verbatim>\<open>try\<close>; the result is \<open>Inr\<close> of the returned
  string, or \<open>Inl\<close> of an error that escapes.
\<close>

definition strip_fence :: "jsstring \<Rightarrow> jsstring" where
  "strip_fence cleaned = (case codeBlockMatch cleaned of Some g \<Rightarrow> trim g | None \<Rightarrow> cleaned)"

definition strip_before :: "jsstring \<Rightarrow> jsstring" where
  "strip_before cleaned =
     (if \<not> startsWith cleaned 123 \<and> \<not> startsWith cleaned 91 then
        (let jsonStart = search_open cleaned
         in if jsonStart \<noteq> - 1 then drop (nat jsonStart) cleaned else cleaned)
      else cleaned)"

definition strip_after :: "jsstring \<Rightarrow> jsstring" where
  "strip_after cleaned =
     (if \<not> endsWith cleaned 125 \<and> \<not> endsWith cleaned 93 then
        (let lastBrace = max (lastIndexOf cleaned 125) (lastIndexOf cleaned 93)
         in if lastBrace \<noteq> - 1 then take (nat (lastBrace + 1)) cleaned else cleaned)
      else cleaned)"

definition cleanJsonResponse :: "jsstring \<Rightarrow> error + jsstring" where
  "cleanJsonResponse text =
     (let cleaned = trim text;
          cleaned = strip_fence cleaned;
          cleaned = strip_before cleaned;
          cleaned = strip_after cleaned
      in case JSON_parse cleaned of
           Inr v \<Rightarrow> Inr cleaned
         | Inl e \<Rightarrow> Inr (tryRepairTruncatedJson cleaned))"

section \<open>Notions used in the statements\<close>

text \<open>
  The room of a dimension is \<^verbatim>\<open>max[d] - subScores[d]\<close>, as the code computes it; the gain
  of a dimension is what the normalisation adds to its sub-score. \<open>preferred ss a b\<close>
  says that \<open>a\<close> ranks before \<open>b\<close>: more room, or the same room and a lower score.
\<close>

definition room :: "(dim \<Rightarrow> jsnum) \<Rightarrow> dim \<Rightarrow> jsnum" where
  "room ss d = js_sub (maxScore d) (ss d)"

definition gain :: "(dim \<Rightarrow> jsnum) \<Rightarrow> (dim \<Rightarrow> jsnum) \<Rightarrow> dim \<Rightarrow> jsnum" where
  "gain before after d = js_sub (after d) (before d)"

definition preferred :: "(dim \<Rightarrow> jsnum) \<Rightarrow> dim \<Rightarrow> dim \<Rightarrow> bool" where
  "preferred ss a b \<longleftrightarrow>
     js_gt (room ss a) (room ss b) \<or> (room ss a = room ss b \<and> js_lt (ss a) (ss b))"

definition in_range :: "dim \<Rightarrow> jsnum \<Rightarrow> bool" where
  "in_range d v \<longleftrightarrow> js_le (Fin 0) v \<and> js_le v (maxScore d)"

definition half_multiple :: "jsnum \<Rightarrow> bool" where
  "half_multiple v \<longleftrightarrow> (\<exists>k::int. v = Fin (of_int k / 2))"

text \<open>The characters the repairer appends: the double quote, \<^verbatim>\<open>}\<close> and \<^verbatim>\<open>]\<close>.\<close>

definition closer :: "nat \<Rightarrow> bool" where
  "closer c \<longleftrightarrow> c = 34 \<or> c = 125 \<or> c = 93"

text \<open>
  Inputs for the concrete runs. Coerced sub-scores (content, organization, proficiency,
  clarity): 4, 3, 2, 3, where only proficiency has room; 3, 2, 2, 1, of sum 8;
  2, 1, 2, 1, of sum 6; 4, 3, 4, 3, of sum 14; every score at its maximum. And raw
  sub-scores whose content score is the string \<^verbatim>\<open>abc\<close>.
\<close>

definition example_one_room :: "dim \<Rightarrow> jsnum" where
  "example_one_room d =
     (case d of Content \<Rightarrow> Fin 4 | Organization \<Rightarrow> Fin 3 | Proficiency \<Rightarrow> Fin 2 | Clarity \<Rightarrow> Fin 3)"

definition example_sum8 :: "dim \<Rightarrow> jsnum" where
  "example_sum8 d =
     (case d of Content \<Rightarrow> Fin 3 | Organization \<Rightarrow> Fin 2 | Proficiency \<Rightarrow> Fin 2 | Clarity \<Rightarrow> Fin 1)"

definition example_sum6 :: "dim \<Rightarrow> jsnum" where
  "example_sum6 d =
     (case d of Content \<Rightarrow> Fin 2 | Organization \<Rightarrow> Fin 1 | Proficiency \<Rightarrow> Fin 2 | Clarity \<Rightarrow> Fin 1)"

definition example_sum14 :: "dim \<Rightarrow> jsnum" where
  "example_sum14 d =
     (case d of Content \<Rightarrow> Fin 4 | Organization \<Rightarrow> Fin 3 | Proficiency \<Rightarrow> Fin 4 | Clarity \<Rightarrow> Fin 3)"

definition example_all_max :: "dim \<Rightarrow> jsnum" where
  "example_all_max d =
     (case d of Content \<Rightarrow> Fin 4 | Organization \<Rightarrow> Fin 3 | Proficiency \<Rightarrow> Fin 5 | Clarity \<Rightarrow> Fin 3)"

definition example_non_numeric :: "dim \<Rightarrow> jsval" where
  "example_non_numeric d =
     (case d of Content \<Rightarrow> String (js ''abc'') | Organization \<Rightarrow> Number (Fin 2)
      | Proficiency \<Rightarrow> Number (Fin 3) | Clarity \<Rightarrow> Number (Fin 2))"

section \<open>The scores in half points\<close>

text \<open>
  Where the bonus applies every sub-score is a finite multiple of 0.5 between 0 and its
  maximum. The proofs count in half points: \<open>maxHalves\<close> is the table \<^verbatim>\<open>max\<close>,
  \<open>ofHalves\<close> turns a count into the sub-scores it stands for, \<open>halves_pass\<close> is the
  loop over the order on counts (the bonus starts as 2 half points), \<open>ranks_after\<close> is
  the comparator being positive, and \<open>halves_distribute\<close> is the two passes. The lemmas
  below show that the code computes exactly these on the numbers.
\<close>

fun maxHalves :: "dim \<Rightarrow> nat" where
  "maxHalves Content = 8"
| "maxHalves Organization = 6"
| "maxHalves Proficiency = 10"
| "maxHalves Clarity = 6"

definition ofHalves :: "(dim \<Rightarrow> nat) \<Rightarrow> dim \<Rightarrow> jsnum" where
  "ofHalves h d = Fin (real (h d) / 2)"

definition totalHalves :: "(dim \<Rightarrow> nat) \<Rightarrow> nat" where
  "totalHalves h = h Content + h Organization + h Proficiency + h Clarity"

fun halves_pass :: "dim list \<Rightarrow> (dim \<Rightarrow> nat) \<times> nat \<Rightarrow> (dim \<Rightarrow> nat) \<times> nat" where
  "halves_pass [] (h, b) = (h, b)"
| "halves_pass (d # ds) (h, b) =
     (if b = 0 then (h, b)
      else if h d < maxHalves d then halves_pass ds (h(d := h d + 1), b - 1)
      else halves_pass ds (h, b))"

definition ranks_after :: "(dim \<Rightarrow> nat) \<Rightarrow> dim \<Rightarrow> dim \<Rightarrow> bool" where
  "ranks_after h a b \<longleftrightarrow>
     maxHalves a + h b < maxHalves b + h a \<or> (maxHalves a + h b = maxHalves b + h a \<and> h b < h a)"

definition halves_distribute :: "(dim \<Rightarrow> nat) \<Rightarrow> dim \<Rightarrow> nat" where
  "halves_distribute h = fst (halves_pass (sort_by (cmp (ofHalves h)) dims) (halves_pass (sort_by (cmp (ofHalves h)) dims) (h, 2)))"

section \<open>Concrete runs\<close>

text \<open>The definitions that a concrete run unfolds.\<close>

lemmas parse_defs =
  JSON_parse_def finish_def step_def in_number_def number_end_def in_string_def
  string_done_def start_value_def after_value_def deliver_def failed_def is_json_ws_def
  is_hex_digit_def is_decimal_digit_def digit_of_def num_value_def

lemmas repair_defs =
  tryRepairTruncatedJson_def quote_step_def bracket_step_def dangling_here_def
  dangling_quote_def dangling_colon_def dangling_opt_def trailing_comma_here_def is_ws_def
  close_all.simps

lemmas clean_defs =
  cleanJsonResponse_def strip_fence_def strip_before_def strip_after_def startsWith_def
  endsWith_def fence_here_def fence_tag_def fence_nl_def fence_close_def ticks_def trim_def
  Let_def

lemmas normalizer_defs =
  scoreNormalizer_def coerce_def normalize_def calibrate_def bonus_applies_def criticalCount_def distribute_def
  sort_by_def cmp_def dims_def baseScores_def sum4_def clamp_def roundHalf_def Math_min_def
  Math_max_def js_sub_def js_gt_def js_le_def js_ge_def js_neq_def or_zero_def Let_def

lemmas number_defs =
  StringToNumber_def NonDecimalIntegerLiteral_def StrUnsignedDecimalLiteral_def
  ExponentPart_def digits_value_def digit_of_def is_decimal_digit_def trim_def is_ws_def js_def

section \<open>Arithmetic of the scores\<close>

lemma roundHalf_Fin: "roundHalf (Fin x) = Fin (of_int \<lfloor>x * 2 + 1 / 2\<rfloor> / 2)"
  by (simp add: roundHalf_def)

lemma floor_nat_half: "\<lfloor>real k + 1 / 2\<rfloor> = int k"
  by linarith

lemma roundHalf_half: "roundHalf (Fin (real k / 2)) = Fin (real k / 2)"
  by (simp add: roundHalf_Fin floor_nat_half)

lemma roundHalf_NaN: "roundHalf NaN = NaN"
  by (simp add: roundHalf_def)

lemma maxScore_halves: "maxScore d = Fin (real (maxHalves d) / 2)"
  by (cases d) simp_all

lemma Math_min_Fin: "Math_min (Fin a) (Fin b) = Fin (min a b)"
  by (simp add: Math_min_def min_def)

lemma Math_max_Fin: "Math_max (Fin a) (Fin b) = Fin (max a b)"
  by (simp add: Math_max_def max_def)

lemma js_sub_Fin: "js_sub (Fin a) (Fin b) = Fin (a - b)"
  by (simp add: js_sub_def)

lemma js_le_Fin: "js_le (Fin a) (Fin b) \<longleftrightarrow> a \<le> b"
  by (auto simp: js_le_def)

lemma js_gt_Fin: "js_gt (Fin a) (Fin b) \<longleftrightarrow> b < a"
  by (simp add: js_gt_def)

lemma js_ge_Fin: "js_ge (Fin a) (Fin b) \<longleftrightarrow> b \<le> a"
  by (simp add: js_ge_def js_le_Fin)

lemma ofHalves_upd: "ofHalves (h(d := k)) = (ofHalves h)(d := Fin (real k / 2))"
  by (rule ext) (simp add: ofHalves_def)

lemma step_room:
  assumes "h d \<le> maxHalves d"
  shows "roundHalf (js_sub (maxScore d) (ofHalves h d)) = Fin (real (maxHalves d - h d) / 2)"
proof -
  have "js_sub (maxScore d) (ofHalves h d) = Fin (real (maxHalves d - h d) / 2)"
    using assms by (simp add: maxScore_halves ofHalves_def js_sub_Fin of_nat_diff diff_divide_distrib)
  then show ?thesis by (simp only: roundHalf_half)
qed

lemma step_add:
  "Math_min (Math_min (Fin (real r / 2)) (Fin (real b / 2))) (Fin (1 / 2)) =
     Fin (real (if r = 0 \<or> b = 0 then 0 else 1) / 2)"
  by (auto simp: Math_min_Fin min_def)

lemma js_add_NaN_left: "js_add NaN b = NaN"
  by (cases b) simp_all

lemma js_add_NaN_right: "js_add a NaN = NaN"
  by (cases a) simp_all

lemma sum4_NaN: "ss d = NaN \<Longrightarrow> sum4 ss = NaN"
  by (cases d) (simp_all add: sum4_def js_add_NaN_left js_add_NaN_right)

lemma sum4_halves: "sum4 (ofHalves h) = Fin (real (totalHalves h) / 2)"
  by (simp add: sum4_def ofHalves_def totalHalves_def add_divide_distrib)

section \<open>The base scores\<close>

text \<open>
  A clamped and rounded sub-score is NaN, when the coerced input is NaN, or a count of
  half points within the range.
\<close>

lemma clamp_round:
  assumes m: "m = real M / 2"
  shows "roundHalf (clamp x (Fin 0) (Fin m)) = NaN \<or>
         (\<exists>k. k \<le> M \<and> roundHalf (clamp x (Fin 0) (Fin m)) = Fin (real k / 2))"
proof (cases x)
  case NaN
  then show ?thesis by (simp add: clamp_def Math_min_def Math_max_def roundHalf_NaN)
next
  case NegInf
  then have "roundHalf (clamp x (Fin 0) (Fin m)) = Fin (real 0 / 2)"
    by (simp add: clamp_def Math_min_def Math_max_def roundHalf_Fin)
  then show ?thesis by blast
next
  case PosInf
  have "0 \<le> m" using m by simp
  then have "clamp x (Fin 0) (Fin m) = Fin (real M / 2)"
    using PosInf m by (simp add: clamp_def Math_min_def Math_max_def)
  then have "roundHalf (clamp x (Fin 0) (Fin m)) = Fin (real M / 2)"
    by (simp only: roundHalf_half)
  then show ?thesis by blast
next
  case (Fin y)
  define z where "z = max 0 (min m y)"
  have z: "0 \<le> z" "z \<le> real M / 2" using m by (auto simp: z_def)
  have c: "clamp x (Fin 0) (Fin m) = Fin z"
    using Fin by (simp add: clamp_def Math_min_Fin Math_max_Fin z_def)
  define k where "k = nat \<lfloor>z * 2 + 1 / 2\<rfloor>"
  have nonneg: "0 \<le> \<lfloor>z * 2 + 1 / 2\<rfloor>" using z by simp
  have "\<lfloor>z * 2 + 1 / 2\<rfloor> \<le> int M" using z by (simp add: floor_le_iff)
  then have kM: "k \<le> M" by (simp add: k_def)
  have "real_of_int \<lfloor>z * 2 + 1 / 2\<rfloor> = real k" using nonneg by (simp add: k_def)
  then have "roundHalf (clamp x (Fin 0) (Fin m)) = Fin (real k / 2)"
    by (simp add: c roundHalf_Fin)
  with kM show ?thesis by blast
qed

lemma clamp_round_defined:
  assumes "x \<noteq> NaN" and "0 \<le> m"
  shows "roundHalf (clamp x (Fin 0) (Fin m)) \<noteq> NaN"
proof (cases x)
  case NaN
  then show ?thesis using assms(1) by simp
next
  case NegInf
  then show ?thesis by (simp add: clamp_def Math_min_def Math_max_def roundHalf_Fin)
next
  case PosInf
  then show ?thesis using assms(2) by (simp add: clamp_def Math_min_def Math_max_def roundHalf_Fin)
next
  case (Fin y)
  then show ?thesis by (simp add: clamp_def Math_min_Fin Math_max_Fin roundHalf_Fin)
qed

lemma base_subScores:
  "subScores (baseScores nums) d = NaN \<or>
   (\<exists>k. k \<le> maxHalves d \<and> subScores (baseScores nums) d = Fin (real k / 2))"
proof (cases d)
  case Content
  show ?thesis
    using clamp_round [of 4 8 "nums Content"]
    by (simp add: baseScores_def Let_def Content)
next
  case Organization
  show ?thesis
    using clamp_round [of 3 6 "nums Organization"]
    by (simp add: baseScores_def Let_def Organization)
next
  case Proficiency
  show ?thesis
    using clamp_round [of 5 10 "nums Proficiency"]
    by (simp add: baseScores_def Let_def Proficiency)
next
  case Clarity
  show ?thesis
    using clamp_round [of 3 6 "nums Clarity"]
    by (simp add: baseScores_def Let_def Clarity)
qed

lemma base_defined:
  assumes "nums d \<noteq> NaN"
  shows "subScores (baseScores nums) d \<noteq> NaN"
  using assms by (cases d) (simp_all add: baseScores_def Let_def clamp_round_defined)

lemma base_total: "totalScore (baseScores nums) = roundHalf (sum4 (subScores (baseScores nums)))"
  by (simp add: baseScores_def Let_def)

lemma base_cases:
  "(\<exists>d. subScores (baseScores nums) d = NaN) \<or>
   (\<exists>h. subScores (baseScores nums) = ofHalves h \<and> (\<forall>d. h d \<le> maxHalves d))"
proof (cases "\<exists>d. subScores (baseScores nums) d = NaN")
  case True
  then show ?thesis by blast
next
  case False
  then have "\<forall>d. \<exists>k. k \<le> maxHalves d \<and> subScores (baseScores nums) d = Fin (real k / 2)"
    using base_subScores [of nums] by blast
  then obtain h where h: "\<forall>d. h d \<le> maxHalves d \<and> subScores (baseScores nums) d = Fin (real (h d) / 2)"
    by metis
  then have "subScores (baseScores nums) = ofHalves h"
    by (intro ext) (simp add: ofHalves_def)
  with h show ?thesis by blast
qed

section \<open>The loop over the order, in half points\<close>

lemma bonus_pass_stop: "bonus_pass ds (ss, Fin 0) = (ss, Fin 0)"
  by (cases ds) (simp_all add: js_le_Fin)

lemma bonus_pass_give:
  assumes "h d < maxHalves d" and "0 < b"
  shows "bonus_pass (d # ds) (ofHalves h, Fin (real b / 2)) =
           bonus_pass ds (ofHalves (h(d := h d + 1)), Fin (real (b - 1) / 2))"
proof -
  have room: "roundHalf (js_sub (maxScore d) (ofHalves h d)) = Fin (real (maxHalves d - h d) / 2)"
    using assms by (intro step_room) simp
  have add: "Math_min (Math_min (Fin (real (maxHalves d - h d) / 2)) (Fin (real b / 2))) (Fin (1 / 2)) =
               Fin (1 / 2)"
    by (subst step_add) (use assms in simp)
  have notle: "\<not> js_le (Fin (real b / 2)) (Fin 0)"
    using assms by (simp add: js_le_Fin)
  have gt: "js_gt (Fin (1 / 2)) (Fin 0)"
    by (simp add: js_gt_Fin)
  have new: "roundHalf (js_add (ofHalves h d) (Fin (1 / 2))) = Fin (real (h d + 1) / 2)"
  proof -
    have "js_add (ofHalves h d) (Fin (1 / 2)) = Fin (real (h d + 1) / 2)"
      by (simp add: ofHalves_def add_divide_distrib)
    then show ?thesis by (simp only: roundHalf_half)
  qed
  have left: "roundHalf (js_sub (Fin (real b / 2)) (Fin (1 / 2))) = Fin (real (b - 1) / 2)"
  proof -
    have "js_sub (Fin (real b / 2)) (Fin (1 / 2)) = Fin (real (b - 1) / 2)"
      using assms by (simp add: js_sub_Fin of_nat_diff diff_divide_distrib)
    then show ?thesis by (simp only: roundHalf_half)
  qed
  show ?thesis
    by (simp only: bonus_pass.simps notle if_False Let_def room add gt if_True new left ofHalves_upd)
qed

lemma bonus_pass_skip:
  assumes "h d = maxHalves d" and "0 < b"
  shows "bonus_pass (d # ds) (ofHalves h, Fin (real b / 2)) = bonus_pass ds (ofHalves h, Fin (real b / 2))"
proof -
  have room: "roundHalf (js_sub (maxScore d) (ofHalves h d)) = Fin (real (maxHalves d - h d) / 2)"
    using assms by (intro step_room) simp
  have add: "Math_min (Math_min (Fin (real (maxHalves d - h d) / 2)) (Fin (real b / 2))) (Fin (1 / 2)) =
               Fin 0"
    using assms by (simp add: Math_min_Fin)
  have notle: "\<not> js_le (Fin (real b / 2)) (Fin 0)"
    using assms by (simp add: js_le_Fin)
  have gt: "\<not> js_gt (Fin 0) (Fin 0)"
    by (simp add: js_gt_Fin)
  show ?thesis
    by (simp only: bonus_pass.simps notle if_False Let_def room add gt)
qed

lemma bonus_pass_halves:
  "(\<forall>d. h d \<le> maxHalves d) \<Longrightarrow>
   bonus_pass ds (ofHalves h, Fin (real b / 2)) =
     (ofHalves (fst (halves_pass ds (h, b))), Fin (real (snd (halves_pass ds (h, b))) / 2))"
proof (induction ds arbitrary: h b)
  case Nil
  then show ?case by simp
next
  case (Cons d ds)
  have hd: "h d \<le> maxHalves d" using Cons.prems by simp
  show ?case
  proof (cases "b = 0")
    case True
    then show ?thesis by (simp add: bonus_pass_stop)
  next
    case b: False
    show ?thesis
    proof (cases "h d < maxHalves d")
      case True
      have inv: "\<forall>e. (h(d := h d + 1)) e \<le> maxHalves e" using Cons.prems True by auto
      have "bonus_pass (d # ds) (ofHalves h, Fin (real b / 2)) =
              bonus_pass ds (ofHalves (h(d := h d + 1)), Fin (real (b - 1) / 2))"
        using True b by (intro bonus_pass_give) simp_all
      also have "\<dots> = (ofHalves (fst (halves_pass ds (h(d := h d + 1), b - 1))),
                       Fin (real (snd (halves_pass ds (h(d := h d + 1), b - 1))) / 2))"
        by (rule Cons.IH [OF inv])
      finally show ?thesis using True b by simp
    next
      case False
      then have eq: "h d = maxHalves d" using hd by simp
      have "bonus_pass (d # ds) (ofHalves h, Fin (real b / 2)) = bonus_pass ds (ofHalves h, Fin (real b / 2))"
        using eq b by (intro bonus_pass_skip) simp_all
      also have "\<dots> = (ofHalves (fst (halves_pass ds (h, b))), Fin (real (snd (halves_pass ds (h, b))) / 2))"
        by (rule Cons.IH [OF Cons.prems])
      finally show ?thesis using False b by simp
    qed
  qed
qed

lemma dim_all: "(\<forall>d. P d) \<longleftrightarrow> P Content \<and> P Organization \<and> P Proficiency \<and> P Clarity"
  by (metis dim.exhaust)

lemma pass_zero: "halves_pass ds (h, 0) = (h, 0)"
  by (cases ds) simp_all

lemma pass_append: "halves_pass (xs @ ys) (h, b) = halves_pass ys (halves_pass xs (h, b))"
proof (induction xs arbitrary: h b)
  case Nil
  then show ?case by simp
next
  case (Cons x xs)
  show ?case
    using Cons.IH [of "h(x := h x + 1)" "b - 1"] Cons.IH [of h b]
    by (simp add: pass_zero del: fun_upd_apply)
qed

lemma pass_frame: "d \<notin> set ds \<Longrightarrow> fst (halves_pass ds (h, b)) d = h d"
  by (induction ds arbitrary: h b) auto

lemma pass_bonus_le: "snd (halves_pass ds (h, b)) \<le> b"
proof (induction ds arbitrary: h b)
  case Nil
  then show ?case by simp
next
  case (Cons x xs)
  have "snd (halves_pass xs (h(x := h x + 1), b - 1)) \<le> b - 1" by (rule Cons.IH)
  moreover have "snd (halves_pass xs (h, b)) \<le> b" by (rule Cons.IH)
  ultimately show ?case by auto
qed

lemma pass_total: "totalHalves (fst (halves_pass ds (h, b))) + snd (halves_pass ds (h, b)) = totalHalves h + b"
proof (induction ds arbitrary: h b)
  case Nil
  then show ?case by simp
next
  case (Cons x xs)
  have up: "totalHalves (h(x := h x + 1)) = totalHalves h + 1"
    by (cases x) (simp_all add: totalHalves_def)
  show ?case
    using Cons.IH [of "h(x := h x + 1)" "b - 1"] Cons.IH [of h b] up
    by (auto simp del: fun_upd_apply)
qed

lemma pass_le_max: "(\<forall>d. h d \<le> maxHalves d) \<Longrightarrow> fst (halves_pass ds (h, b)) d \<le> maxHalves d"
proof (induction ds arbitrary: h b)
  case Nil
  then show ?case by simp
next
  case (Cons x xs)
  have "h x < maxHalves x \<Longrightarrow> \<forall>e. (h(x := h x + 1)) e \<le> maxHalves e" using Cons.prems by auto
  then show ?case
    using Cons.IH [of "h(x := h x + 1)" "b - 1"] Cons.IH [of h b] Cons.prems
    by (auto simp del: fun_upd_apply)
qed

lemma pass_at:
  assumes "distinct (p @ d # r)"
  shows "fst (halves_pass (p @ d # r) (h, b)) d =
           (if 0 < snd (halves_pass p (h, b)) \<and> h d < maxHalves d then h d + 1 else h d)"
proof -
  obtain hp bp where p: "halves_pass p (h, b) = (hp, bp)" by (cases "halves_pass p (h, b)")
  have dp: "d \<notin> set p" and dr: "d \<notin> set r" using assms by auto
  have hp: "hp d = h d" using pass_frame [OF dp, of h b] p by simp
  have "halves_pass (p @ d # r) (h, b) = halves_pass (d # r) (hp, bp)"
    by (simp only: pass_append p)
  then show ?thesis
    using hp p pass_frame [OF dr, of "hp(d := hp d + 1)" "bp - 1"] pass_frame [OF dr, of hp bp]
    by simp
qed

lemma pass_gain_bounds:
  assumes "distinct ds"
  shows "h d \<le> fst (halves_pass ds (h, b)) d \<and> fst (halves_pass ds (h, b)) d \<le> h d + 1"
proof (cases "d \<in> set ds")
  case False
  then show ?thesis by (simp add: pass_frame)
next
  case True
  then obtain p r where ds: "ds = p @ d # r" by (meson split_list)
  then show ?thesis using pass_at [of p d r h b] assms by simp
qed

lemma pass_all_served:
  assumes "distinct ds" and "d \<in> set ds" and "0 < snd (halves_pass ds (h, b))" and "h d < maxHalves d"
  shows "fst (halves_pass ds (h, b)) d = h d + 1"
proof -
  obtain p r where ds: "ds = p @ d # r" using assms(2) by (meson split_list)
  obtain hp bp where p: "halves_pass p (h, b) = (hp, bp)" by (cases "halves_pass p (h, b)")
  have "snd (halves_pass ds (h, b)) = snd (halves_pass (d # r) (hp, bp))"
    by (simp only: ds pass_append p)
  also have "\<dots> \<le> bp" by (rule pass_bonus_le)
  finally have "0 < snd (halves_pass p (h, b))" using assms(3) p by simp
  then show ?thesis using pass_at [of p d r h b] assms(1,4) ds by simp
qed

lemma pass_earlier_served:
  assumes "distinct (p @ d' # q @ d # r)" and "h d' < maxHalves d'"
    and "h d < fst (halves_pass (p @ d' # q @ d # r) (h, b)) d"
  shows "fst (halves_pass (p @ d' # q @ d # r) (h, b)) d' = h d' + 1"
proof -
  have d1: "distinct ((p @ d' # q) @ d # r)" using assms(1) by simp
  have "0 < snd (halves_pass (p @ d' # q) (h, b))"
    using pass_at [OF d1, of h b] assms(3) by (simp split: if_splits)
  moreover have "snd (halves_pass (p @ d' # q) (h, b)) \<le> snd (halves_pass p (h, b))"
  proof -
    obtain hp bp where p: "halves_pass p (h, b) = (hp, bp)" by (cases "halves_pass p (h, b)")
    have "snd (halves_pass (p @ d' # q) (h, b)) = snd (halves_pass (d' # q) (hp, bp))"
      by (simp only: pass_append p)
    also have "\<dots> \<le> bp" by (rule pass_bonus_le)
    finally show ?thesis using p by simp
  qed
  ultimately have "0 < snd (halves_pass p (h, b))" by simp
  then show ?thesis
    using pass_at [of p d' "q @ d # r" h b] assms(1,2) by simp
qed

section \<open>The sort\<close>

lemma cmp_ranks_after: "js_gt (cmp (ofHalves h) a b) (Fin 0) \<longleftrightarrow> ranks_after h a b"
proof -
  have ra: "js_sub (maxScore a) (ofHalves h a) = Fin ((real (maxHalves a) - real (h a)) / 2)"
    by (simp add: maxScore_halves ofHalves_def js_sub_Fin diff_divide_distrib)
  have rb: "js_sub (maxScore b) (ofHalves h b) = Fin ((real (maxHalves b) - real (h b)) / 2)"
    by (simp add: maxScore_halves ofHalves_def js_sub_Fin diff_divide_distrib)
  have sc: "js_sub (ofHalves h a) (ofHalves h b) = Fin ((real (h a) - real (h b)) / 2)"
    by (simp add: ofHalves_def js_sub_Fin diff_divide_distrib)
  show ?thesis
  proof (cases "real (maxHalves b) - real (h b) = real (maxHalves a) - real (h a)")
    case True
    then have "real (maxHalves a + h b) = real (maxHalves b + h a)" by simp
    then have eq: "maxHalves a + h b = maxHalves b + h a" by (simp only: of_nat_eq_iff)
    have "cmp (ofHalves h) a b = Fin ((real (h a) - real (h b)) / 2)"
      using True by (simp add: cmp_def Let_def ra rb sc js_neq_def)
    then show ?thesis using eq by (simp add: js_gt_Fin ranks_after_def)
  next
    case False
    then have "real (maxHalves a + h b) \<noteq> real (maxHalves b + h a)" by auto
    then have ne: "maxHalves a + h b \<noteq> maxHalves b + h a" by (simp only: of_nat_eq_iff) simp
    have c: "cmp (ofHalves h) a b =
            Fin ((real (maxHalves b) - real (h b)) / 2 - (real (maxHalves a) - real (h a)) / 2)"
      using False by (simp add: cmp_def Let_def ra rb js_neq_def js_sub_Fin)
    have "(0 < (real (maxHalves b) - real (h b)) / 2 - (real (maxHalves a) - real (h a)) / 2) \<longleftrightarrow>
          real (maxHalves a + h b) < real (maxHalves b + h a)"
      by (simp only: of_nat_add) argo
    also have "\<dots> \<longleftrightarrow> maxHalves a + h b < maxHalves b + h a" by (simp only: of_nat_less_iff)
    finally show ?thesis using ne by (simp add: c js_gt_Fin ranks_after_def)
  qed
qed

lemma set_insert_sorted: "set (insert_sorted f x ys) = insert x (set ys)"
  by (induction ys) auto

lemma distinct_insert_sorted:
  "distinct ys \<Longrightarrow> x \<notin> set ys \<Longrightarrow> distinct (insert_sorted f x ys)"
  by (induction ys) (auto simp: set_insert_sorted)

lemma sorted_insert_sorted:
  assumes asym: "\<And>a b. js_gt (f a b) (Fin 0) \<Longrightarrow> \<not> js_gt (f b a) (Fin 0)"
    and trans: "\<And>a b c. \<not> js_gt (f a b) (Fin 0) \<Longrightarrow> \<not> js_gt (f b c) (Fin 0) \<Longrightarrow>
                  \<not> js_gt (f a c) (Fin 0)"
    and "sorted_wrt (\<lambda>a b. \<not> js_gt (f a b) (Fin 0)) ys"
  shows "sorted_wrt (\<lambda>a b. \<not> js_gt (f a b) (Fin 0)) (insert_sorted f x ys)"
  using assms(3)
proof (induction ys)
  case Nil
  then show ?case by simp
next
  case (Cons y ys)
  show ?case
  proof (cases "js_gt (f x y) (Fin 0)")
    case True
    then have "\<not> js_gt (f y x) (Fin 0)" by (rule asym)
    then show ?thesis using Cons True by (auto simp: set_insert_sorted)
  next
    case False
    then have "\<forall>z \<in> set ys. \<not> js_gt (f x z) (Fin 0)"
      using Cons.prems trans by auto
    then show ?thesis using Cons.prems False by simp
  qed
qed

lemma sort_by_set: "set (sort_by f xs) = set xs"
  by (induction xs) (simp_all add: sort_by_def set_insert_sorted)

lemma sort_by_distinct: "distinct xs \<Longrightarrow> distinct (sort_by f xs)"
proof (induction xs)
  case Nil
  then show ?case by (simp add: sort_by_def)
next
  case (Cons x xs)
  have "sort_by f (x # xs) = insert_sorted f x (sort_by f xs)" by (simp add: sort_by_def)
  then show ?case using Cons by (simp add: distinct_insert_sorted sort_by_set)
qed

lemma sort_by_sorted:
  assumes asym: "\<And>a b. js_gt (f a b) (Fin 0) \<Longrightarrow> \<not> js_gt (f b a) (Fin 0)"
    and trans: "\<And>a b c. \<not> js_gt (f a b) (Fin 0) \<Longrightarrow> \<not> js_gt (f b c) (Fin 0) \<Longrightarrow>
                  \<not> js_gt (f a c) (Fin 0)"
  shows "sorted_wrt (\<lambda>a b. \<not> js_gt (f a b) (Fin 0)) (sort_by f xs)"
proof (induction xs)
  case Nil
  then show ?case by (simp add: sort_by_def)
next
  case (Cons x xs)
  have "sort_by f (x # xs) = insert_sorted f x (sort_by f xs)" by (simp add: sort_by_def)
  then show ?case using sorted_insert_sorted [of f, OF asym trans Cons] by simp
qed

lemma order_dims:
  "set (sort_by f dims) = UNIV" "distinct (sort_by f dims)"
proof -
  have "set dims = UNIV" using dim.exhaust by (auto simp: dims_def)
  then show "set (sort_by f dims) = UNIV" by (simp add: sort_by_set)
  show "distinct (sort_by f dims)" by (rule sort_by_distinct) (simp add: dims_def)
qed

lemma order_sorted:
  "sorted_wrt (\<lambda>a b. \<not> ranks_after h a b) (sort_by (cmp (ofHalves h)) dims)"
proof -
  have "sorted_wrt (\<lambda>a b. \<not> js_gt (cmp (ofHalves h) a b) (Fin 0)) (sort_by (cmp (ofHalves h)) dims)"
    by (rule sort_by_sorted) (auto simp: cmp_ranks_after ranks_after_def)
  then show ?thesis by (simp add: cmp_ranks_after)
qed

lemma two_in_distinct:
  assumes "distinct xs" and "a \<in> set xs" and "b \<in> set xs" and "a \<noteq> b"
  shows "(\<exists>p q r. xs = p @ a # q @ b # r) \<or> (\<exists>p q r. xs = p @ b # q @ a # r)"
proof -
  obtain p r where xs: "xs = p @ a # r" using assms(2) by (meson split_list)
  then have "b \<in> set p \<or> b \<in> set r" using assms(3,4) by auto
  then show ?thesis
  proof
    assume "b \<in> set p"
    then obtain p1 p2 where "p = p1 @ b # p2" by (meson split_list)
    then have "xs = p1 @ b # p2 @ a # r" using xs by simp
    then show ?thesis by blast
  next
    assume "b \<in> set r"
    then obtain r1 r2 where "r = r1 @ b # r2" by (meson split_list)
    then have "xs = p @ a # r1 @ b # r2" using xs by simp
    then show ?thesis by blast
  qed
qed

lemma preferred_first:
  assumes "ranks_after h d d'"
  shows "\<exists>p q r. sort_by (cmp (ofHalves h)) dims = p @ d' # q @ d # r"
proof -
  let ?order = "sort_by (cmp (ofHalves h)) dims"
  have ne: "d' \<noteq> d" using assms by (auto simp: ranks_after_def)
  have "d' \<in> set ?order" "d \<in> set ?order" by (simp_all add: order_dims)
  then consider (a) p q r where "?order = p @ d' # q @ d # r"
    | (b) p q r where "?order = p @ d # q @ d' # r"
    using two_in_distinct [OF order_dims(2) _ _ ne] by blast
  then show ?thesis
  proof cases
    case a
    then show ?thesis by blast
  next
    case b
    have "sorted_wrt (\<lambda>a b. \<not> ranks_after h a b) (p @ d # q @ d' # r)"
      using order_sorted [of h] b by simp
    then have "\<not> ranks_after h d d'" by (simp add: sorted_wrt_append)
    with assms show ?thesis by simp
  qed
qed

section \<open>The two passes\<close>

lemma total_max: "totalHalves maxHalves = 30"
  by (simp add: totalHalves_def)

lemma total_mono: "(\<And>d. f d \<le> g d) \<Longrightarrow> totalHalves f \<le> totalHalves g"
  by (simp add: totalHalves_def add_mono)

lemma total_eq_imp:
  assumes "\<And>d. f d \<le> g d" and "totalHalves g \<le> totalHalves f"
  shows "f d = g d"
proof -
  have "f Content \<le> g Content" "f Organization \<le> g Organization"
    "f Proficiency \<le> g Proficiency" "f Clarity \<le> g Clarity"
    using assms(1) by blast+
  then have "f Content = g Content \<and> f Organization = g Organization \<and>
             f Proficiency = g Proficiency \<and> f Clarity = g Clarity"
    using assms(2) by (simp add: totalHalves_def)
  then show ?thesis by (cases d) simp_all
qed

lemma two_passes:
  fixes ord :: "dim list"
  assumes ord: "distinct ord" "set ord = UNIV"
    and le: "\<forall>d. h d \<le> maxHalves d"
  defines "h1 \<equiv> fst (halves_pass ord (h, 2))"
    and "b1 \<equiv> snd (halves_pass ord (h, 2))"
  defines "h2 \<equiv> fst (halves_pass ord (h1, b1))"
    and "b2 \<equiv> snd (halves_pass ord (h1, b1))"
  shows "h d \<le> h1 d" "h1 d \<le> h d + 1" "h1 d \<le> h2 d" "h2 d \<le> h1 d + 1" "h2 d \<le> maxHalves d"
    and "totalHalves h1 + b1 = totalHalves h + 2" "totalHalves h2 + b2 = totalHalves h1 + b1"
    and "0 < b1 \<Longrightarrow> h d < maxHalves d \<Longrightarrow> h1 d = h d + 1"
    and "0 < b2 \<Longrightarrow> h1 d < maxHalves d \<Longrightarrow> h2 d = h1 d + 1"
    and "b1 = 0 \<Longrightarrow> h2 d = h1 d"
    and "b2 \<le> b1"
proof -
  have in_ord: "d \<in> set ord" using ord(2) by simp
  have le1: "\<forall>d. h1 d \<le> maxHalves d"
    unfolding h1_def using pass_le_max [OF le] by blast
  show "h d \<le> h1 d" "h1 d \<le> h d + 1"
    unfolding h1_def using pass_gain_bounds [OF ord(1), of h d 2] by simp_all
  show "h1 d \<le> h2 d" "h2 d \<le> h1 d + 1"
    unfolding h2_def using pass_gain_bounds [OF ord(1), of h1 d b1] by simp_all
  show "h2 d \<le> maxHalves d"
    unfolding h2_def using pass_le_max [OF le1] by blast
  show "totalHalves h1 + b1 = totalHalves h + 2"
    unfolding h1_def b1_def by (rule pass_total)
  show "totalHalves h2 + b2 = totalHalves h1 + b1"
    unfolding h2_def b2_def by (rule pass_total)
  show "0 < b1 \<Longrightarrow> h d < maxHalves d \<Longrightarrow> h1 d = h d + 1"
    unfolding h1_def b1_def using pass_all_served [OF ord(1) in_ord] by blast
  show "0 < b2 \<Longrightarrow> h1 d < maxHalves d \<Longrightarrow> h2 d = h1 d + 1"
    unfolding h2_def b2_def using pass_all_served [OF ord(1) in_ord] by blast
  show "b1 = 0 \<Longrightarrow> h2 d = h1 d"
    unfolding h2_def by (simp add: pass_zero)
  show "b2 \<le> b1"
    unfolding b2_def by (rule pass_bonus_le)
qed

lemma distribute_halves:
  assumes le: "\<forall>d. h d \<le> maxHalves d"
  shows "distribute (ofHalves h) = ofHalves (halves_distribute h)"
proof -
  define ord where "ord = sort_by (cmp (ofHalves h)) dims"
  obtain h1 b1 where p1: "halves_pass ord (h, 2) = (h1, b1)" by (cases "halves_pass ord (h, 2)")
  have le1: "\<forall>d. h1 d \<le> maxHalves d"
    using pass_le_max [OF le, of ord 2] p1 by simp
  have one: "Fin 1 = Fin (real (2::nat) / 2)" by simp
  have first: "bonus_pass ord (ofHalves h, Fin 1) = (ofHalves h1, Fin (real b1 / 2))"
    using bonus_pass_halves [OF le, of ord 2] p1 by (simp only: one fst_conv snd_conv)
  have second: "fst (bonus_pass ord (ofHalves h1, Fin (real b1 / 2))) = ofHalves (fst (halves_pass ord (h1, b1)))"
    using bonus_pass_halves [OF le1, of ord b1] by simp
  have "distribute (ofHalves h) = ofHalves (fst (halves_pass ord (h1, b1)))"
  proof (cases "0 < b1")
    case True
    then have "js_gt (Fin (real b1 / 2)) (Fin 0)" by (simp add: js_gt_Fin)
    then show ?thesis
      by (simp add: distribute_def Let_def ord_def [symmetric] first second)
  next
    case False
    then have z: "b1 = 0" by simp
    then have "\<not> js_gt (Fin (real b1 / 2)) (Fin 0)" by (simp add: js_gt_Fin)
    then show ?thesis
      by (simp add: distribute_def Let_def ord_def [symmetric] first z pass_zero)
  qed
  then show ?thesis by (simp add: halves_distribute_def ord_def [symmetric] p1)
qed

lemma distribute_halves_bounds:
  assumes le: "\<forall>d. h d \<le> maxHalves d"
  shows "h d \<le> halves_distribute h d" "halves_distribute h d \<le> h d + 2" "halves_distribute h d \<le> maxHalves d"
proof -
  define ord where "ord = sort_by (cmp (ofHalves h)) dims"
  have o: "distinct ord" "set ord = UNIV" by (simp_all add: ord_def order_dims)
  define h1 where "h1 = fst (halves_pass ord (h, 2))"
  define b1 where "b1 = snd (halves_pass ord (h, 2))"
  define h2 where "h2 = fst (halves_pass ord (h1, b1))"
  define b2 where "b2 = snd (halves_pass ord (h1, b1))"
  note t = two_passes [OF o le, folded h1_def b1_def, folded h2_def b2_def]
  have a: "halves_distribute h = h2"
    by (simp add: halves_distribute_def ord_def h2_def h1_def b1_def)
  show "h d \<le> halves_distribute h d" using t(1) [of d] t(3) [of d] a by simp
  show "halves_distribute h d \<le> h d + 2" using t(2) [of d] t(4) [of d] a by simp
  show "halves_distribute h d \<le> maxHalves d" using t(5) [of d] a by simp
qed

lemma distribute_halves_total:
  assumes le: "\<forall>d. h d \<le> maxHalves d" and room: "totalHalves h \<le> 28"
  shows "totalHalves (halves_distribute h) = totalHalves h + 2"
proof -
  define ord where "ord = sort_by (cmp (ofHalves h)) dims"
  have o: "distinct ord" "set ord = UNIV" by (simp_all add: ord_def order_dims)
  define h1 where "h1 = fst (halves_pass ord (h, 2))"
  define b1 where "b1 = snd (halves_pass ord (h, 2))"
  define h2 where "h2 = fst (halves_pass ord (h1, b1))"
  define b2 where "b2 = snd (halves_pass ord (h1, b1))"
  note t = two_passes [OF o le, folded h1_def b1_def, folded h2_def b2_def]
  have a: "halves_distribute h = h2"
    by (simp add: halves_distribute_def ord_def h2_def h1_def b1_def)
  have sum: "totalHalves h2 + b2 = totalHalves h + 2" using t(6) t(7) by simp
  have "b2 = 0"
  proof (rule ccontr)
    assume "b2 \<noteq> 0"
    then have b2: "0 < b2" by simp
    then have b1: "0 < b1" using t(11) by simp
    have full: "h2 d = maxHalves d \<or> h2 d = h d + 2" for d
    proof (cases "h d < maxHalves d")
      case False
      then have "h d = maxHalves d" using le by (simp add: le_antisym)
      then show ?thesis using t(1) [of d] t(3) [of d] t(5) [of d] by simp
    next
      case True
      then have 1: "h1 d = h d + 1" using t(8) [OF b1] by simp
      show ?thesis
      proof (cases "h1 d < maxHalves d")
        case True
        then show ?thesis using t(9) [OF b2] 1 by simp
      next
        case False
        then show ?thesis using 1 True t(3) [of d] t(5) [of d] by simp
      qed
    qed
    have ge: "h d \<le> h2 d" for d using t(1) [of d] t(3) [of d] by simp
    have less: "totalHalves h2 \<le> totalHalves h + 1" using sum b2 by simp
    have "h2 d = maxHalves d" for d
    proof (rule ccontr)
      assume "h2 d \<noteq> maxHalves d"
      then have two: "h2 d = h d + 2" using full by blast
      have "totalHalves (h(d := h d + 2)) \<le> totalHalves h2"
        by (rule total_mono) (use two ge in auto)
      moreover have "totalHalves (h(d := h d + 2)) = totalHalves h + 2"
        by (cases d) (simp_all add: totalHalves_def)
      ultimately show False using less by simp
    qed
    then have "totalHalves h2 = totalHalves maxHalves" by (simp add: totalHalves_def)
    then show False using less room by (simp add: total_max)
  qed
  then show ?thesis using sum a by simp
qed

lemma distribute_halves_only_one:
  assumes le: "\<forall>d. h d \<le> maxHalves d" and two: "halves_distribute h d = h d + 2" and ne: "d' \<noteq> d"
  shows "h d' = maxHalves d'"
proof -
  define ord where "ord = sort_by (cmp (ofHalves h)) dims"
  have o: "distinct ord" "set ord = UNIV" by (simp_all add: ord_def order_dims)
  define h1 where "h1 = fst (halves_pass ord (h, 2))"
  define b1 where "b1 = snd (halves_pass ord (h, 2))"
  define h2 where "h2 = fst (halves_pass ord (h1, b1))"
  define b2 where "b2 = snd (halves_pass ord (h1, b1))"
  note t = two_passes [OF o le, folded h1_def b1_def, folded h2_def b2_def]
  have a: "halves_distribute h = h2"
    by (simp add: halves_distribute_def ord_def h2_def h1_def b1_def)
  have h2d: "h2 d = h d + 2" using two a by simp
  have h1d: "h1 d = h d + 1" using h2d t(2) [of d] t(4) [of d] by simp
  have b1: "0 < b1" using t(10) [of d] h2d h1d by (cases "b1 = 0") simp_all
  have small: "totalHalves h1 \<le> totalHalves h + 1" using t(6) b1 by simp
  have "(h(d := h d + 1)) e = h1 e" for e
  proof (rule total_eq_imp)
    show "(h(d := h d + 1)) x \<le> h1 x" for x using h1d t(1) [of x] by simp
    have "totalHalves (h(d := h d + 1)) = totalHalves h + 1" by (cases d) (simp_all add: totalHalves_def)
    then show "totalHalves h1 \<le> totalHalves (h(d := h d + 1))" using small by simp
  qed
  from this [of d'] have same: "h1 d' = h d'" using ne by simp
  show ?thesis
  proof (rule ccontr)
    assume "h d' \<noteq> maxHalves d'"
    then have "h d' < maxHalves d'" using le by (simp add: le_neq_implies_less)
    then have "h1 d' = h d' + 1" using t(8) [OF b1] by simp
    then show False using same by simp
  qed
qed

lemma distribute_halves_preference:
  assumes le: "\<forall>d. h d \<le> maxHalves d" and gain: "h d < halves_distribute h d" and pref: "ranks_after h d d'"
  shows "h d' < halves_distribute h d'"
proof -
  define ord where "ord = sort_by (cmp (ofHalves h)) dims"
  have o: "distinct ord" "set ord = UNIV" by (simp_all add: ord_def order_dims)
  define h1 where "h1 = fst (halves_pass ord (h, 2))"
  define b1 where "b1 = snd (halves_pass ord (h, 2))"
  define h2 where "h2 = fst (halves_pass ord (h1, b1))"
  define b2 where "b2 = snd (halves_pass ord (h1, b1))"
  note t = two_passes [OF o le, folded h1_def b1_def, folded h2_def b2_def]
  have a: "halves_distribute h = h2"
    by (simp add: halves_distribute_def ord_def h2_def h1_def b1_def)
  have first: "h d < h1 d"
  proof (rule ccontr)
    assume "\<not> h d < h1 d"
    then have same: "h1 d = h d" using t(1) [of d] by simp
    then have up: "h2 d = h1 d + 1" using gain a t(4) [of d] by simp
    then have b1: "0 < b1" using t(10) [of d] by (cases "b1 = 0") simp_all
    have "h d < maxHalves d" using up same t(5) [of d] by simp
    then have "h1 d = h d + 1" using t(8) [OF b1] by simp
    then show False using same by simp
  qed
  have roomd: "h d < maxHalves d" using first t(3) [of d] t(5) [of d] by simp
  have roomd': "h d' < maxHalves d'" using pref roomd by (auto simp: ranks_after_def)
  obtain p q r where split: "ord = p @ d' # q @ d # r"
    using preferred_first [OF pref] by (auto simp: ord_def)
  have "fst (halves_pass (p @ d' # q @ d # r) (h, 2)) d' = h d' + 1"
    by (rule pass_earlier_served) (use o(1) roomd' first in \<open>simp_all add: split h1_def\<close>)
  then have "h1 d' = h d' + 1" by (simp add: h1_def split)
  then show ?thesis using t(3) [of d'] a by simp
qed

section \<open>The score normaliser\<close>

lemma not_applies_NaN: "totalScore g = NaN \<Longrightarrow> \<not> bonus_applies g critical"
  by (simp add: bonus_applies_def js_ge_def js_le_def)

lemma applies_Fin:
  "totalScore g = Fin (real t / 2) \<Longrightarrow>
   bonus_applies g critical \<longleftrightarrow> 12 \<le> t \<and> t \<le> 28 \<and> criticalCount critical \<le> 2"
  by (auto simp: bonus_applies_def js_ge_Fin js_le_Fin)

lemma base_NaN:
  assumes "subScores (baseScores nums) d = NaN"
  shows "totalScore (baseScores nums) = NaN"
    and "normalize nums critical = baseScores nums"
proof -
  show t: "totalScore (baseScores nums) = NaN"
    using sum4_NaN [of "subScores (baseScores nums)" d, OF assms]
    by (simp add: base_total roundHalf_NaN)
  show "normalize nums critical = baseScores nums"
    using not_applies_NaN [OF t, of critical] by (simp add: normalize_def calibrate_def)
qed

lemma base_halves:
  assumes e: "subScores (baseScores nums) = ofHalves h" and le: "\<forall>d. h d \<le> maxHalves d"
  shows "totalScore (baseScores nums) = Fin (real (totalHalves h) / 2)"
    and "bonus_applies (baseScores nums) critical \<Longrightarrow>
           normalize nums critical =
             \<lparr>subScores = ofHalves (halves_distribute h), totalScore = Fin (real (totalHalves (halves_distribute h)) / 2)\<rparr>"
    and "\<not> bonus_applies (baseScores nums) critical \<Longrightarrow>
           normalize nums critical = baseScores nums"
proof -
  show "totalScore (baseScores nums) = Fin (real (totalHalves h) / 2)"
    by (simp only: base_total e sum4_halves roundHalf_half)
  show "bonus_applies (baseScores nums) critical \<Longrightarrow>
           normalize nums critical =
             \<lparr>subScores = ofHalves (halves_distribute h), totalScore = Fin (real (totalHalves (halves_distribute h)) / 2)\<rparr>"
    by (simp add: normalize_def calibrate_def Let_def e distribute_halves [OF le] sum4_halves
        roundHalf_half)
  show "\<not> bonus_applies (baseScores nums) critical \<Longrightarrow>
           normalize nums critical = baseScores nums"
    by (simp add: normalize_def calibrate_def)
qed

lemma gain_halves: "gain (ofHalves h) (ofHalves h') d = Fin ((real (h' d) - real (h d)) / 2)"
  by (simp add: gain_def ofHalves_def js_sub_Fin diff_divide_distrib)

lemma room_halves: "room (ofHalves h) d = Fin ((real (maxHalves d) - real (h d)) / 2)"
  by (simp add: room_def ofHalves_def maxScore_halves js_sub_Fin diff_divide_distrib)

lemma preferred_halves: "preferred (ofHalves h) a b \<longleftrightarrow> ranks_after h b a"
proof -
  have 1: "js_gt (room (ofHalves h) a) (room (ofHalves h) b) \<longleftrightarrow> maxHalves b + h a < maxHalves a + h b"
  proof -
    have "js_gt (room (ofHalves h) a) (room (ofHalves h) b) \<longleftrightarrow>
          real (maxHalves b + h a) < real (maxHalves a + h b)"
      by (simp only: room_halves js_gt_Fin of_nat_add) argo
    then show ?thesis by (simp only: of_nat_less_iff)
  qed
  have 2: "room (ofHalves h) a = room (ofHalves h) b \<longleftrightarrow> maxHalves b + h a = maxHalves a + h b"
  proof -
    have "room (ofHalves h) a = room (ofHalves h) b \<longleftrightarrow> real (maxHalves b + h a) = real (maxHalves a + h b)"
      by (simp only: room_halves jsnum.inject of_nat_add) argo
    then show ?thesis by (simp only: of_nat_eq_iff)
  qed
  have 3: "js_lt (ofHalves h a) (ofHalves h b) \<longleftrightarrow> h a < h b"
    by (simp add: ofHalves_def)
  show ?thesis by (simp only: preferred_def 1 2 3 ranks_after_def)
qed

text \<open>
  What the normaliser does guarantee about the range: when no coerced input is NaN,
  every returned sub-score lies between 0 and its maximum and is a multiple of 0.5.
\<close>

lemma sub_scores_in_range:
  assumes "\<forall>d. nums d \<noteq> NaN"
  shows "in_range d (subScores (normalize nums critical) d) \<and>
         half_multiple (subScores (normalize nums critical) d)"
proof -
  have "\<not> (\<exists>e. subScores (baseScores nums) e = NaN)"
    using assms base_defined by blast
  then obtain h where fin: "subScores (baseScores nums) = ofHalves h" "\<forall>d. h d \<le> maxHalves d"
    using base_cases [of nums] by blast
  have ok: "in_range d (ofHalves k d) \<and> half_multiple (ofHalves k d)" if "k d \<le> maxHalves d" for k
  proof -
    have "ofHalves k d = Fin (of_int (int (k d)) / 2)" by (simp add: ofHalves_def)
    then have "half_multiple (ofHalves k d)" unfolding half_multiple_def by blast
    then show ?thesis
      using that by (simp add: in_range_def ofHalves_def maxScore_halves js_le_Fin)
  qed
  show ?thesis
  proof (cases "bonus_applies (baseScores nums) critical")
    case True
    then have "subScores (normalize nums critical) = ofHalves (halves_distribute h)"
      using base_halves(2) [OF fin True] by simp
    then show ?thesis using ok distribute_halves_bounds(3) [OF fin(2)] by simp
  next
    case False
    then have "subScores (normalize nums critical) = ofHalves h"
      using base_halves(3) [OF fin False] fin(1) by simp
    then show ?thesis using ok fin(2) by simp
  qed
qed

text \<open>
  Claim C1. For every sub-score input, the non-numeric ones included, each returned
  sub-score lies within its range and is a multiple of 0.5. The code breaks this: a raw
  content score that is the string \<^verbatim>\<open>abc\<close> is not falsy, so \<^verbatim>\<open>|| 0\<close> keeps it,
  \<^verbatim>\<open>Number\<close> makes it NaN, and NaN passes through \<^verbatim>\<open>Math.min\<close>, \<^verbatim>\<open>Math.max\<close> and
  \<^verbatim>\<open>Math.round\<close>. The returned content score is NaN, which is in no range and is no
  multiple of 0.5.
\<close>

theorem non_numeric_sub_score_escapes:
  "subScores (scoreNormalizer example_non_numeric (Some ([] :: jsstring list))) Content = NaN
   \<and> \<not> in_range Content (subScores (scoreNormalizer example_non_numeric (Some ([] :: jsstring list))) Content)
   \<and> \<not> half_multiple (subScores (scoreNormalizer example_non_numeric (Some ([] :: jsstring list))) Content)"
  by (simp add: example_non_numeric_def normalizer_defs number_defs in_range_def half_multiple_def)

text \<open>
  Claim C2. For every input the returned total is the sum of the four returned
  sub-scores, with the bonus and without it. The theorem is about every four numbers
  that the coercion can give, so about every raw input whose coercion returns. Where a
  sub-score is NaN the total and the sum are both NaN.
\<close>

theorem total_is_sum:
  "totalScore (normalize nums critical) = sum4 (subScores (normalize nums critical))"
proof -
  consider (nan) d where "subScores (baseScores nums) d = NaN"
    | (fin) h where "subScores (baseScores nums) = ofHalves h" "\<forall>d. h d \<le> maxHalves d"
    using base_cases [of nums] by blast
  then show ?thesis
  proof cases
    case nan
    then show ?thesis
      by (simp add: base_NaN sum4_NaN [of "subScores (baseScores nums)" d, OF nan])
  next
    case fin
    show ?thesis
    proof (cases "bonus_applies (baseScores nums) critical")
      case True
      then show ?thesis by (simp add: base_halves(2) [OF fin] sum4_halves)
    next
      case False
      then show ?thesis
        by (simp add: base_halves(3) [OF fin] base_halves(1) [OF fin] fin(1) sum4_halves)
    qed
  qed
qed

theorem total_is_sum_witness:
  "totalScore (normalize example_sum8 (Some ([] :: jsstring list))) =
     sum4 (subScores (normalize example_sum8 (Some ([] :: jsstring list))))"
  by (rule total_is_sum)

text \<open>
  Claim C3, as stated: when the bonus applies no dimension gains more than 0.5. It
  fails: with the scores 4, 3, 2, 3 and no critical issue only proficiency has room;
  the first pass gives it 0.5, half of the bonus is left, and the second pass gives it
  0.5 again. Proficiency goes from 2 to 3.
\<close>

theorem one_dimension_gains_a_point:
  "bonus_applies (baseScores example_one_room) (Some ([] :: jsstring list))
   \<and> subScores (baseScores example_one_room) Proficiency = Fin 2
   \<and> subScores (normalize example_one_room (Some ([] :: jsstring list))) Proficiency = Fin 3
   \<and> js_gt (gain (subScores (baseScores example_one_room))
         (subScores (normalize example_one_room (Some ([] :: jsstring list)))) Proficiency)
       (Fin (1 / 2))"
  by (simp add: example_one_room_def normalizer_defs gain_def)

text \<open>
  Claim C3, amended. When the bonus applies, every dimension gains 0, 0.5 or 1; a
  dimension gains 1 only when no other dimension has room; when a dimension gains, every
  dimension that ranks before it (more room, or the same room and a lower score) gains
  too; and no sub-score is pushed above its maximum. When all four sub-scores are at
  their maxima the normaliser returns the base scores: no bonus is applied.
\<close>

theorem bonus_distribution:
  "(bonus_applies (baseScores nums) critical \<longrightarrow>
      (gain (subScores (baseScores nums)) (subScores (normalize nums critical)) d = Fin 0 \<or>
       gain (subScores (baseScores nums)) (subScores (normalize nums critical)) d = Fin (1 / 2) \<or>
       gain (subScores (baseScores nums)) (subScores (normalize nums critical)) d = Fin 1)
    \<and> (gain (subScores (baseScores nums)) (subScores (normalize nums critical)) d = Fin 1 \<longrightarrow>
         d' \<noteq> d \<longrightarrow> room (subScores (baseScores nums)) d' = Fin 0)
    \<and> (js_gt (gain (subScores (baseScores nums)) (subScores (normalize nums critical)) d) (Fin 0) \<longrightarrow>
         preferred (subScores (baseScores nums)) d' d \<longrightarrow>
         js_gt (gain (subScores (baseScores nums)) (subScores (normalize nums critical)) d') (Fin 0))
    \<and> js_le (subScores (normalize nums critical) d) (maxScore d))
   \<and> ((\<forall>e. subScores (baseScores nums) e = maxScore e) \<longrightarrow>
        normalize nums critical = baseScores nums)"
proof -
  consider (nan) e where "subScores (baseScores nums) e = NaN"
    | (fin) h where "subScores (baseScores nums) = ofHalves h" "\<forall>d. h d \<le> maxHalves d"
    using base_cases [of nums] by blast
  then show ?thesis
  proof cases
    case nan
    have "\<not> bonus_applies (baseScores nums) critical"
      using not_applies_NaN [OF base_NaN(1) [OF nan]] by blast
    then show ?thesis by (simp add: base_NaN(2) [OF nan])
  next
    case fin
    note b = base_halves [OF fin]
    have full: "normalize nums critical = baseScores nums"
      if "\<forall>e. subScores (baseScores nums) e = maxScore e"
    proof -
      have "h e = maxHalves e" for e
        using that fin(1) by (simp add: ofHalves_def maxScore_halves)
      then have "totalHalves h = 30" by (simp add: totalHalves_def)
      then have "\<not> bonus_applies (baseScores nums) critical"
        using applies_Fin [OF b(1), of critical] by simp
      then show ?thesis by (rule b(3))
    qed
    have dist: ?thesis if app: "bonus_applies (baseScores nums) critical"
    proof -
      have after: "subScores (normalize nums critical) = ofHalves (halves_distribute h)"
        using b(2) [OF app] by simp
      note bd = distribute_halves_bounds [OF fin(2)]
      have g: "gain (ofHalves h) (ofHalves (halves_distribute h)) x = Fin ((real (halves_distribute h x) - real (h x)) / 2)" for x
        by (rule gain_halves)
      have cases3: "halves_distribute h d = h d \<or> halves_distribute h d = h d + 1 \<or> halves_distribute h d = h d + 2"
        using bd(1) [of d] bd(2) [of d] by linarith
      have c1: "gain (ofHalves h) (ofHalves (halves_distribute h)) d = Fin 0 \<or>
                gain (ofHalves h) (ofHalves (halves_distribute h)) d = Fin (1 / 2) \<or>
                gain (ofHalves h) (ofHalves (halves_distribute h)) d = Fin 1"
        using cases3 by (auto simp: g)
      have c2: "room (ofHalves h) d' = Fin 0"
        if "gain (ofHalves h) (ofHalves (halves_distribute h)) d = Fin 1" "d' \<noteq> d"
      proof -
        have "halves_distribute h d = h d + 2" using that(1) cases3 by (auto simp: g)
        then have "h d' = maxHalves d'" using distribute_halves_only_one [OF fin(2) _ that(2)] by blast
        then show ?thesis by (simp add: room_halves)
      qed
      have pos: "js_gt (gain (ofHalves h) (ofHalves (halves_distribute h)) x) (Fin 0) \<longleftrightarrow> h x < halves_distribute h x" for x
        by (simp add: g js_gt_Fin)
      have c3: "js_gt (gain (ofHalves h) (ofHalves (halves_distribute h)) d') (Fin 0)"
        if "js_gt (gain (ofHalves h) (ofHalves (halves_distribute h)) d) (Fin 0)" "preferred (ofHalves h) d' d"
        using distribute_halves_preference [OF fin(2), of d d'] that by (simp only: pos preferred_halves)
      have c4: "js_le (ofHalves (halves_distribute h) d) (maxScore d)"
        using bd(3) [of d] by (simp add: ofHalves_def maxScore_halves js_le_Fin)
      show ?thesis
        using c1 c2 c3 c4 full by (simp only: after fin(1)) blast
    qed
    show ?thesis
    proof (cases "bonus_applies (baseScores nums) critical")
      case True
      then show ?thesis by (rule dist)
    next
      case False
      then show ?thesis using full by blast
    qed
  qed
qed

theorem bonus_distribution_witness:
  "gain (subScores (baseScores example_one_room))
        (subScores (normalize example_one_room (Some ([] :: jsstring list)))) Proficiency = Fin 1
   \<and> room (subScores (baseScores example_one_room)) Content = Fin 0
   \<and> js_le (subScores (normalize example_one_room (Some ([] :: jsstring list))) Proficiency)
        (maxScore Proficiency)
   \<and> preferred (subScores (baseScores example_sum8)) Proficiency Clarity
   \<and> js_gt (gain (subScores (baseScores example_sum8))
        (subScores (normalize example_sum8 (Some ([] :: jsstring list)))) Proficiency) (Fin 0)
   \<and> normalize example_all_max (Some ([] :: jsstring list)) = baseScores example_all_max"
proof -
  have app1: "bonus_applies (baseScores example_one_room) (Some ([] :: jsstring list))"
    by (simp add: example_one_room_def normalizer_defs)
  have g1: "gain (subScores (baseScores example_one_room))
              (subScores (normalize example_one_room (Some ([] :: jsstring list)))) Proficiency = Fin 1"
    by (simp add: example_one_room_def normalizer_defs gain_def)
  have app8: "bonus_applies (baseScores example_sum8) (Some ([] :: jsstring list))"
    by (simp add: example_sum8_def normalizer_defs)
  have g8: "js_gt (gain (subScores (baseScores example_sum8))
              (subScores (normalize example_sum8 (Some ([] :: jsstring list)))) Clarity) (Fin 0)"
    by (simp add: example_sum8_def normalizer_defs gain_def)
  have p8: "preferred (subScores (baseScores example_sum8)) Proficiency Clarity"
    by (simp add: example_sum8_def normalizer_defs preferred_def room_def)
  have full: "\<forall>e. subScores (baseScores example_all_max) e = maxScore e"
  proof
    fix e
    show "subScores (baseScores example_all_max) e = maxScore e"
      by (cases e) (simp_all add: example_all_max_def normalizer_defs)
  qed
  show ?thesis
    using bonus_distribution [of example_one_room "Some ([] :: jsstring list)" Proficiency Content]
      bonus_distribution [of example_sum8 "Some ([] :: jsstring list)" Clarity Proficiency]
      bonus_distribution [of example_all_max "Some ([] :: jsstring list)" Content Content]
      app1 g1 app8 g8 p8 full
    by simp
qed

text \<open>
  Claim C4. The bonus is applied exactly when the total of the clamped and rounded
  sub-scores lies in 6..14, both ends included, and there are at most 2 critical issues:
  the result then differs from the base scores and its total is the base total plus 1,
  once; otherwise the result is the base scores. With sub-scores that sum to 8 the
  total becomes 9 with no critical issue and stays 8 with three; a total of 6 becomes 7
  and a total of 14 becomes 15.
\<close>

theorem bonus_exactly_when:
  "(normalize nums critical \<noteq> baseScores nums \<longleftrightarrow>
      (\<exists>t. totalScore (baseScores nums) = Fin t \<and> 6 \<le> t \<and> t \<le> 14) \<and>
      criticalCount critical \<le> 2)
   \<and> totalScore (normalize nums critical) =
       (if normalize nums critical \<noteq> baseScores nums
        then js_add (totalScore (baseScores nums)) (Fin 1)
        else totalScore (baseScores nums))"
proof -
  consider (nan) d where "subScores (baseScores nums) d = NaN"
    | (fin) h where "subScores (baseScores nums) = ofHalves h" "\<forall>d. h d \<le> maxHalves d"
    using base_cases [of nums] by blast
  then show ?thesis
  proof cases
    case nan
    then show ?thesis by (simp add: base_NaN)
  next
    case fin
    note b = base_halves [OF fin]
    have cond: "bonus_applies (baseScores nums) critical \<longleftrightarrow>
                  (\<exists>t. totalScore (baseScores nums) = Fin t \<and> 6 \<le> t \<and> t \<le> 14) \<and>
                  criticalCount critical \<le> 2"
    proof -
      have "(\<exists>t. Fin (real (totalHalves h) / 2) = Fin t \<and> 6 \<le> t \<and> t \<le> 14) \<longleftrightarrow>
            6 \<le> real (totalHalves h) / 2 \<and> real (totalHalves h) / 2 \<le> 14"
        by (metis jsnum.inject(1))
      also have "\<dots> \<longleftrightarrow> 12 \<le> totalHalves h \<and> totalHalves h \<le> 28" by auto
      finally have e: "(\<exists>t. Fin (real (totalHalves h) / 2) = Fin t \<and> 6 \<le> t \<and> t \<le> 14) \<longleftrightarrow>
            12 \<le> totalHalves h \<and> totalHalves h \<le> 28" .
      show ?thesis unfolding applies_Fin [OF b(1), of critical] b(1) e by auto
    qed
    show ?thesis
    proof (cases "bonus_applies (baseScores nums) critical")
      case True
      then have t: "totalHalves h \<le> 28" using applies_Fin [OF b(1), of critical] by simp
      have up: "totalHalves (halves_distribute h) = totalHalves h + 2" by (rule distribute_halves_total [OF fin(2) t])
      have r: "normalize nums critical =
                 \<lparr>subScores = ofHalves (halves_distribute h), totalScore = Fin (real (totalHalves h + 2) / 2)\<rparr>"
        using b(2) [OF True] up by simp
      have ne: "normalize nums critical \<noteq> baseScores nums"
      proof
        assume "normalize nums critical = baseScores nums"
        then have "totalScore (normalize nums critical) = totalScore (baseScores nums)"
          by simp
        then show False by (simp add: r b(1))
      qed
      have "totalScore (normalize nums critical) = js_add (totalScore (baseScores nums)) (Fin 1)"
        by (simp add: r b(1) add_divide_distrib)
      then show ?thesis using ne True cond by simp
    next
      case False
      then show ?thesis using cond b(3) [OF False] by simp
    qed
  qed
qed

theorem bonus_exactly_when_witness:
  "totalScore (baseScores example_sum8) = Fin 8
   \<and> totalScore (normalize example_sum8 (Some ([] :: jsstring list))) = Fin 9
   \<and> totalScore (normalize example_sum8 (Some [js ''a'', js ''b'', js ''c''])) = Fin 8
   \<and> totalScore (normalize example_sum6 (Some [js ''a'', js ''b''])) = Fin 7
   \<and> totalScore (normalize example_sum14 (None :: jsstring list option)) = Fin 15"
proof -
  have t8: "totalScore (baseScores example_sum8) = Fin 8"
    by (simp add: example_sum8_def baseScores_def sum4_def clamp_def roundHalf_def Math_min_def
        Math_max_def Let_def)
  have t6: "totalScore (baseScores example_sum6) = Fin 6"
    by (simp add: example_sum6_def baseScores_def sum4_def clamp_def roundHalf_def Math_min_def
        Math_max_def Let_def)
  have t14: "totalScore (baseScores example_sum14) = Fin 14"
    by (simp add: example_sum14_def baseScores_def sum4_def clamp_def roundHalf_def Math_min_def
        Math_max_def Let_def)
  have in8: "\<exists>x. Fin 8 = Fin x \<and> 6 \<le> x \<and> x \<le> 14" by simp
  have in6: "\<exists>x. Fin 6 = Fin x \<and> 6 \<le> x \<and> x \<le> 14" by simp
  have in14: "\<exists>x. Fin 14 = Fin x \<and> 6 \<le> x \<and> x \<le> 14" by simp
  show ?thesis
    using bonus_exactly_when [of example_sum8 "Some ([] :: jsstring list)"]
      bonus_exactly_when [of example_sum8 "Some [js ''a'', js ''b'', js ''c'']"]
      bonus_exactly_when [of example_sum6 "Some [js ''a'', js ''b'']"]
      bonus_exactly_when [of example_sum14 "None :: jsstring list option"]
      in8 in6 in14
    by (simp add: t8 t6 t14 criticalCount_def)
qed

text \<open>
  Claim C5. Every raw sub-score is coerced to a number, a missing or non-numeric value
  counting as zero. The code does this for the falsy values (\<^verbatim>\<open>undefined\<close>,
  \<^verbatim>\<open>null\<close>, the empty string) and misses the non-numeric string: \<^verbatim>\<open>abc\<close> is coerced
  to NaN, not to 0, and the total of the grading result is NaN.
\<close>

theorem non_numeric_string_is_nan:
  "coerce (String (js ''abc'')) = NaN
   \<and> coerce Undefined = Fin 0
   \<and> coerce Null = Fin 0
   \<and> coerce (String []) = Fin 0
   \<and> coerce (String (js ''3.5'')) = Fin 3.5
   \<and> totalScore (scoreNormalizer example_non_numeric (Some ([] :: jsstring list))) = NaN"
  by (simp add: example_non_numeric_def normalizer_defs number_defs)

section \<open>The repairer\<close>

lemma close_all_eq: "close_all repaired stack = repaired @ rev stack"
proof (induction repaired stack rule: close_all.induct)
  case (1 repaired stack)
  show ?case
  proof (cases "stack = []")
    case True
    then show ?thesis by (subst close_all.simps) simp
  next
    case False
    then have "stack = butlast stack @ [last stack]" by simp
    then have r: "rev stack = last stack # rev (butlast stack)"
      by (metis rev_eq_Cons_iff rev_rev_ident)
    have "close_all repaired stack = close_all (repaired @ [last stack]) (butlast stack)"
      using False by (subst close_all.simps) simp
    also have "\<dots> = (repaired @ [last stack]) @ rev (butlast stack)"
      using 1 False by simp
    also have "\<dots> = repaired @ rev stack"
      by (simp only: r append_assoc append_Cons append_Nil)
    finally show ?thesis .
  qed
qed

text \<open>
  Claim C7. The repairer turns \<^verbatim>\<open>{"a": "hello\<close> into a text that parses to the object
  with the one member \<open>a\<close>, the string \<open>hello\<close>; and it turns
  \<^verbatim>\<open>{"a": 1, "b": [1, 2,\<close> into a text that parses to the object with \<open>a\<close> the number
  1 and \<open>b\<close> the array of 1 and 2.
\<close>

theorem repairer_examples:
  \<open>JSON_parse (tryRepairTruncatedJson (js ''{"a": "hello'')) =
     Inr (JObject [(js ''a'', JString (js ''hello''))])
   \<and> JSON_parse (tryRepairTruncatedJson (js ''{"a": 1, "b": [1, 2,'')) =
     Inr (JObject [(js ''a'', JNumber 1), (js ''b'', JArray [JNumber 1, JNumber 2])])\<close>
  by (simp add: js_def repair_defs parse_defs)

lemma prefix_replace_dangling: "prefix (replace_dangling s) s"
  by (induction s) simp_all

lemma prefix_replace_trailing_comma: "prefix (replace_trailing_comma s) s"
  by (induction s) simp_all

lemma bracket_step_closers:
  "list_all closer (fst st) \<Longrightarrow> list_all closer (fst (bracket_step st ch))"
proof -
  assume a: "list_all closer (fst st)"
  obtain stack inStr escape where st: "st = (stack, inStr, escape)" by (cases st)
  have "list_all closer (butlast stack)"
    using a st by (auto simp: list_all_iff dest: in_set_butlastD)
  then show ?thesis using a st by (simp add: bracket_step_def closer_def)
qed

lemma foldl_bracket_closers:
  "list_all closer (fst st) \<Longrightarrow> list_all closer (fst (foldl bracket_step st s))"
proof (induction s arbitrary: st)
  case Nil
  then show ?case by simp
next
  case (Cons c s)
  then show ?case by (simp add: bracket_step_closers)
qed

text \<open>
  Claim C10. For every input string the output of the repairer is a prefix of the input,
  unchanged, followed only by appended closing characters: double quotes, right braces
  and right brackets.
\<close>

theorem repairer_appends_closers:
  "\<exists>kept closers. tryRepairTruncatedJson text = kept @ closers \<and> prefix kept text \<and>
     list_all closer closers"
proof -
  define inString where "inString = fst (foldl quote_step (False, None) text)"
  define r1 where "r1 = (if inString then text @ [34] else text)"
  define r3 where "r3 = replace_trailing_comma (replace_dangling r1)"
  define stack where "stack = fst (foldl bracket_step ([], False, False) r3)"
  have out: "tryRepairTruncatedJson text = r3 @ rev stack"
    by (simp add: tryRepairTruncatedJson_def Let_def close_all_eq stack_def r3_def r1_def
        inString_def)
  have cl: "list_all closer (rev stack)"
    using foldl_bracket_closers [of "([], False, False)" r3] by (simp add: stack_def)
  have p: "prefix r3 r1"
    unfolding r3_def
    using prefix_replace_trailing_comma prefix_replace_dangling by (rule prefix_order.trans)
  show ?thesis
  proof (cases "prefix r3 text")
    case True
    then show ?thesis using out cl by blast
  next
    case False
    then have "r3 = text @ [34]" using p by (auto simp: r1_def split: if_splits)
    then have "tryRepairTruncatedJson text = text @ (34 # rev stack)" using out by simp
    moreover have "list_all closer (34 # rev stack)" using cl by (simp add: closer_def)
    ultimately show ?thesis by blast
  qed
qed

theorem repairer_appends_closers_witness:
  \<open>\<exists>kept closers. js ''{"a": 1, "b": [1, 2]}'' = kept @ closers
      \<and> prefix kept (js ''{"a": 1, "b": [1, 2,'') \<and> list_all closer closers\<close>
proof -
  have \<open>tryRepairTruncatedJson (js ''{"a": 1, "b": [1, 2,'') = js ''{"a": 1, "b": [1, 2]}''\<close>
    by (simp add: js_def tryRepairTruncatedJson_def quote_step_def bracket_step_def dangling_here_def
  dangling_quote_def dangling_colon_def dangling_opt_def trailing_comma_here_def is_ws_def
  close_all.simps)
  then show ?thesis
    using repairer_appends_closers [of \<open>js ''{"a": 1, "b": [1, 2,''\<close>] by simp
qed

section \<open>The sanitizer\<close>

text \<open>
  Claim C9. For every input string the sanitizer, with its fallback into the repairer,
  returns a string: no error escapes. The syntax error of \<^verbatim>\<open>JSON.parse\<close> is caught, and
  nothing else in the two functions throws.
\<close>

theorem sanitizer_never_throws: "\<exists>out. cleanJsonResponse text = Inr out"
  by (simp add: cleanJsonResponse_def Let_def split: sum.split)

theorem sanitizer_never_throws_witness:
  "\<exists>out. cleanJsonResponse (js ''no json here'') = Inr out"
  by (rule sanitizer_never_throws)

lemma trim_append_ws:
  assumes "body \<noteq> []" and "\<not> is_ws (hd body)" and "\<not> is_ws (last body)"
    and "list_all is_ws w"
  shows "trim (body @ w) = body"
proof -
  have 1: "dropWhile is_ws (body @ w) = body @ w"
    using assms(1,2) by (cases body) simp_all
  have "dropWhile is_ws (rev w @ rev body) = dropWhile is_ws (rev body)"
    using assms(4) by (intro dropWhile_append2) (simp add: list_all_iff)
  also have "\<dots> = rev body"
    using assms(1,3) by (cases body rule: rev_cases) simp_all
  finally show ?thesis by (simp add: trim_def 1)
qed

lemma trim_id:
  assumes "s \<noteq> []" and "\<not> is_ws (hd s)" and "\<not> is_ws (last s)"
  shows "trim s = s"
  using trim_append_ws [OF assms, of "[]"] by simp

lemma search_open_none: "91 \<notin> set s \<Longrightarrow> 123 \<notin> set s \<Longrightarrow> search_open s = - 1"
  by (induction s) auto

lemma lastIndexOf_none: "ch \<notin> set s \<Longrightarrow> lastIndexOf s ch = - 1"
  by (induction s) auto

lemma strip_before_id:
  "startsWith s 123 \<or> startsWith s 91 \<or> (123 \<notin> set s \<and> 91 \<notin> set s) \<Longrightarrow> strip_before s = s"
  by (auto simp: strip_before_def search_open_none)

lemma strip_after_id:
  "endsWith s 125 \<or> endsWith s 93 \<or> (125 \<notin> set s \<and> 93 \<notin> set s) \<Longrightarrow> strip_after s = s"
  by (auto simp: strip_after_def lastIndexOf_none)

text \<open>
  Claim C6, as stated: the sanitizer returns every valid JSON string unchanged. It
  fails: the sanitizer trims white space (JSON with a leading space comes back without
  it), cuts a text that does not begin with a brace or bracket at the first one (the JSON
  string \<^verbatim>\<open>"a{b"\<close> comes back as \<^verbatim>\<open>{b""}\<close>), and takes the inside of a fence wherever
  one is found (also inside a JSON string).
\<close>

theorem sanitizer_changes_valid_json:
  \<open>JSON_parse (js '' {}'') = Inr (JObject [])
   \<and> cleanJsonResponse (js '' {}'') = Inr (js ''{}'')
   \<and> cleanJsonResponse (js '' {}'') \<noteq> Inr (js '' {}'')
   \<and> JSON_parse (js ''"a{b"'') = Inr (JString (js ''a{b''))
   \<and> cleanJsonResponse (js ''"a{b"'') = Inr (js ''{b""}'')
   \<and> JSON_parse (js ''{"a":"```x```"}'') = Inr (JObject [(js ''a'', JString (js ''```x```''))])
   \<and> cleanJsonResponse (js ''{"a":"```x```"}'') = Inr (js ''x'')\<close>
  by (simp add: js_def clean_defs repair_defs parse_defs)

text \<open>
  Claim C6, amended. The sanitizer returns unchanged every valid JSON string that has no
  white space around it, in which the fence pattern has no match, that begins with
  \<^verbatim>\<open>{\<close> or \<^verbatim>\<open>[\<close> or holds neither, and that ends with \<^verbatim>\<open>}\<close> or \<^verbatim>\<open>]\<close> or holds
  neither.
\<close>

theorem sanitizer_identity:
  assumes "JSON_parse s = Inr v" and "trim s = s" and "codeBlockMatch s = None"
    and "startsWith s 123 \<or> startsWith s 91 \<or> (123 \<notin> set s \<and> 91 \<notin> set s)"
    and "endsWith s 125 \<or> endsWith s 93 \<or> (125 \<notin> set s \<and> 93 \<notin> set s)"
  shows "cleanJsonResponse s = Inr s"
proof -
  have "strip_fence s = s" using assms(3) by (simp add: strip_fence_def)
  then show ?thesis
    using assms(1,2) strip_before_id [OF assms(4)] strip_after_id [OF assms(5)]
    by (simp add: cleanJsonResponse_def)
qed

theorem sanitizer_identity_witness:
  \<open>cleanJsonResponse (js ''{"x":1}'') = Inr (js ''{"x":1}'')\<close>
proof -
  have 1: \<open>JSON_parse (js ''{"x":1}'') = Inr (JObject [(js ''x'', JNumber 1)])\<close>
    by (simp add: js_def parse_defs)
  have 2: \<open>trim (js ''{"x":1}'') = js ''{"x":1}''\<close>
    by (simp add: js_def trim_def is_ws_def)
  have 3: \<open>codeBlockMatch (js ''{"x":1}'') = None\<close>
    by (simp add: js_def fence_here_def ticks_def)
  have 4: \<open>startsWith (js ''{"x":1}'') 123\<close>
    by (simp add: js_def startsWith_def)
  have 5: \<open>endsWith (js ''{"x":1}'') 125\<close>
    by (simp add: js_def endsWith_def)
  show ?thesis
    using sanitizer_identity [OF 1 2 3] 4 5 by blast
qed

lemma ticks_suffix_snoc: "suffix ticks (xs @ [c]) \<Longrightarrow> c = 96"
  by (auto simp: ticks_def)

lemma ticks_suffix_last: "suffix ticks (xs @ [96]) \<Longrightarrow> xs \<noteq> [] \<and> last xs = 96"
proof -
  assume "suffix ticks (xs @ [96])"
  then have "suffix [96, 96] xs" by (auto simp: ticks_def)
  then obtain ps where "xs = ps @ [96, 96]" by (auto simp: suffix_def)
  then show ?thesis by simp
qed

lemma no_ticks_ws:
  assumes "\<not> sublist ticks body" and "list_all is_ws w"
  shows "\<not> sublist ticks (body @ w)"
  using assms(2)
proof (induction w rule: rev_induct)
  case Nil
  then show ?case using assms(1) by simp
next
  case (snoc c w)
  then have ws: "is_ws c" and rest: "\<not> sublist ticks (body @ w)" by simp_all
  have "c \<noteq> 96" using ws by (auto simp: is_ws_def)
  then have "\<not> suffix ticks ((body @ w) @ [c])" using ticks_suffix_snoc by blast
  then show ?case using rest sublist_snoc [of ticks "body @ w" c] by simp
qed

lemma no_ticks_ext:
  assumes "\<not> sublist ticks xs" and "xs = [] \<or> last xs \<noteq> 96"
  shows "\<not> sublist ticks (xs @ [96, 96])"
proof -
  have a: "\<not> suffix ticks (xs @ [96])" using ticks_suffix_last assms(2) by blast
  then have b: "\<not> sublist ticks (xs @ [96])"
    using assms(1) sublist_snoc [of ticks xs 96] by simp
  have "\<not> suffix ticks ((xs @ [96]) @ [96])"
    using ticks_suffix_last [of "xs @ [96]"] assms(2) a
    by (auto simp: ticks_def suffix_def)
  then have "\<not> sublist ticks ((xs @ [96]) @ [96])"
    using b sublist_snoc [of ticks "xs @ [96]" 96] by simp
  then show ?thesis by simp
qed

lemma prefix_ticks_shorter:
  assumes "prefix ticks (ys @ ticks)" and "ys \<noteq> []"
  shows "prefix ticks (ys @ [96, 96])"
proof -
  have "ys @ ticks = (ys @ [96, 96]) @ [96]" by (simp add: ticks_def)
  then have "ticks = (ys @ [96, 96]) @ [96] \<or> prefix ticks (ys @ [96, 96])"
    using assms(1) by (simp only: prefix_snoc)
  moreover have "ticks \<noteq> (ys @ [96, 96]) @ [96]"
    using assms(2) by (cases ys) (simp_all add: ticks_def)
  ultimately show ?thesis by blast
qed

lemma fence_group_end:
  "\<not> sublist ticks (xs @ [96, 96]) \<Longrightarrow>
   fence_group (xs @ ticks) = Some (if xs \<noteq> [] \<and> last xs = 10 then butlast xs else xs)"
proof (induction xs)
  case Nil
  then show ?case by (simp add: ticks_def fence_close_def)
next
  case (Cons c cs)
  have no: "\<not> sublist ticks (cs @ [96, 96])"
    using Cons.prems sublist_Cons_right [of ticks c "cs @ [96, 96]"] by simp
  have np: "\<not> prefix ticks ((c # cs) @ ticks)"
    using prefix_ticks_shorter [of "c # cs"] Cons.prems by auto
  show ?case
  proof (cases "cs = []")
    case True
    then show ?thesis
      using np by (auto simp: fence_close_def ticks_def)
  next
    case False
    have "\<not> prefix ticks (cs @ ticks)"
      using prefix_ticks_shorter [OF _ False] no by auto
    then have "\<not> fence_close ((c # cs) @ ticks)"
      using np by (simp add: fence_close_def)
    then show ?thesis
      using Cons.IH [OF no] False by simp
  qed
qed

lemma fence_ws_skip:
  "list_all is_ws w \<Longrightarrow> fence_ws rest = Some g \<Longrightarrow> fence_ws (w @ rest) = Some g"
  by (induction w) simp_all

lemma fence_ws_body:
  assumes "rest \<noteq> []" and "\<not> is_ws (hd rest)"
  shows "fence_ws rest = fence_group rest"
proof -
  obtain c cs where r: "rest = c # cs" using assms(1) by (cases rest) auto
  have "c \<noteq> 10" using assms(2) r by (auto simp: is_ws_def)
  then show ?thesis using assms(2) r by (simp add: fence_nl_def)
qed

text \<open>
  What validity says about the two ends of a text. \<^verbatim>\<open>JSON.parse\<close> accepts no empty
  text, no text that begins with \<^verbatim>\<open>j\<close> and no text that ends with a backtick: a
  backtick is accepted only inside a string, which is then still open at the end of the
  text. The literals \<^verbatim>\<open>true\<close>, \<^verbatim>\<open>false\<close> and \<^verbatim>\<open>null\<close> hold no backtick, which is
  the invariant of the automaton that the last fact needs.
\<close>

lemma finish_failed: "finish failed = Inl SyntaxError"
  by (simp add: finish_def failed_def)

lemma step_failed: "step failed c = failed"
  by (simp add: step_def failed_def)

lemma foldl_step_failed: "foldl step failed cs = failed"
  by (induction cs) (simp_all add: step_failed)

lemma parse_empty: "JSON_parse [] = Inl SyntaxError"
  by (simp add: JSON_parse_def finish_def)

lemma parse_j: "JSON_parse (106 # cs) = Inl SyntaxError"
  by (simp add: JSON_parse_def step_def is_json_ws_def start_value_def foldl_step_failed
      finish_failed)

lemma deliver_mode: "mode (deliver v stk) = AfterValue \<or> mode (deliver v stk) = Failed"
  by (simp add: deliver_def failed_def split: list.split frame.split option.split)

lemma deliver_not_literal: "mode (deliver v stk) \<noteq> InLiteral r w"
  using deliver_mode [of v stk] by auto

lemma after_value_mode:
  "mode (after_value st c) = InLiteral r w \<Longrightarrow> mode st = InLiteral r w"
  by (auto simp: after_value_def failed_def deliver_not_literal
      split: if_splits list.splits frame.splits)

lemma after_value_tick: "after_value st 96 = failed"
  by (simp add: after_value_def is_json_ws_def split: list.split frame.split)

lemma start_value_mode: "mode (start_value st c) = InLiteral r w \<Longrightarrow> 96 \<notin> set r"
  by (auto simp: start_value_def failed_def js_def Let_def split: if_splits)

lemma in_string_mode: "mode (in_string st k e buf c) \<noteq> InLiteral r w"
  by (auto simp: in_string_def string_done_def failed_def deliver_not_literal
      split: strstate.splits if_splits list.splits frame.splits option.splits)

lemma number_end_mode: "mode (number_end st a c) \<noteq> InLiteral r w"
  using after_value_mode [of "deliver (JNumber (num_value a)) (frames st)" c r w]
  by (auto simp: number_end_def deliver_not_literal)

lemma in_number_mode: "mode (in_number st n a c) \<noteq> InLiteral r w"
  by (cases n) (auto simp: in_number_def failed_def Let_def number_end_mode)

lemma step_mode:
  assumes "\<forall>r w. mode st = InLiteral r w \<longrightarrow> 96 \<notin> set r"
    and "mode (step st c) = InLiteral r w"
  shows "96 \<notin> set r"
proof (cases "mode st")
  case ExpectValue
  then show ?thesis using assms(2) start_value_mode [of st c r w]
    by (auto simp: step_def split: if_splits)
next
  case ExpectValueOrClose
  then show ?thesis using assms(2) start_value_mode [of st c r w]
    by (auto simp: step_def failed_def deliver_not_literal
        split: if_splits list.splits frame.splits)
next
  case ExpectKeyOrClose
  then show ?thesis using assms(2)
    by (auto simp: step_def failed_def deliver_not_literal
        split: if_splits list.splits frame.splits)
next
  case ExpectKey
  then show ?thesis using assms(2) by (auto simp: step_def failed_def split: if_splits)
next
  case ExpectColon
  then show ?thesis using assms(2) by (auto simp: step_def failed_def split: if_splits)
next
  case AfterValue
  then show ?thesis using assms(2) after_value_mode [of st c r w] by (auto simp: step_def)
next
  case (InString k e buf)
  then show ?thesis using assms(2) by (auto simp: step_def in_string_mode)
next
  case (InNumber n a)
  then show ?thesis using assms(2) by (auto simp: step_def in_number_mode)
next
  case (InLiteral rest v)
  then show ?thesis using assms
    by (auto simp: step_def failed_def deliver_not_literal split: if_splits list.splits)
next
  case Failed
  then show ?thesis using assms(2) by (auto simp: step_def failed_def)
qed

lemma foldl_step_mode:
  "\<forall>r w. mode st = InLiteral r w \<longrightarrow> 96 \<notin> set r \<Longrightarrow>
   \<forall>r w. mode (foldl step st cs) = InLiteral r w \<longrightarrow> 96 \<notin> set r"
proof (induction cs arbitrary: st)
  case Nil
  then show ?case by (simp only: foldl_Nil)
next
  case (Cons c cs)
  have "\<forall>r w. mode (step st c) = InLiteral r w \<longrightarrow> 96 \<notin> set r"
    using step_mode [OF Cons.prems] by blast
  then show ?case unfolding foldl_Cons by (rule Cons.IH)
qed

lemma step_tick:
  assumes "\<forall>r w. mode st = InLiteral r w \<longrightarrow> 96 \<notin> set r"
  shows "finish (step st 96) = Inl SyntaxError"
proof (cases "mode st")
  case (InString k e buf)
  then show ?thesis
    by (cases e) (simp_all add: step_def in_string_def finish_def failed_def is_hex_digit_def)
next
  case (InNumber n a)
  then show ?thesis
    by (cases n)
      (simp_all add: step_def in_number_def number_end_def after_value_tick finish_failed
        is_decimal_digit_def)
next
  case (InLiteral rest v)
  then show ?thesis using assms
    by (cases rest) (auto simp: step_def finish_failed)
qed (simp_all add: step_def start_value_def is_json_ws_def after_value_tick finish_failed
    split: list.split frame.split)

lemma parse_tick: "JSON_parse (cs @ [96]) = Inl SyntaxError"
proof -
  have "\<forall>r w. mode (foldl step \<lparr>mode = ExpectValue, frames = [], result = None\<rparr> cs)
          = InLiteral r w \<longrightarrow> 96 \<notin> set r"
    by (rule foldl_step_mode) simp
  then show ?thesis by (simp add: JSON_parse_def step_tick)
qed

lemma valid_ends:
  assumes "JSON_parse s = Inr v"
  shows "s \<noteq> []" and "hd s \<noteq> 106" and "last s \<noteq> 96"
proof -
  show ne: "s \<noteq> []" using assms parse_empty by auto
  show "hd s \<noteq> 106" using assms ne parse_j [of "tl s"] by (cases s) auto
  show "last s \<noteq> 96" using assms ne parse_tick [of "butlast s"]
    by (cases s rule: rev_cases) auto
qed

lemma trim_fixed:
  assumes "trim s = s" and "s \<noteq> []"
  shows "\<not> is_ws (hd s)" and "\<not> is_ws (last s)"
proof -
  have len: "length (dropWhile is_ws xs) \<le> length xs" for xs
    by (rule length_dropWhile_le)
  show a: "\<not> is_ws (hd s)"
  proof
    assume w: "is_ws (hd s)"
    obtain c cs where s: "s = c # cs" using assms(2) by (cases s) auto
    have "length (dropWhile is_ws s) \<le> length cs"
      using w len [of cs] by (simp add: s)
    then have "length (dropWhile is_ws s) < length s" by (simp add: s)
    moreover have "length (trim s) \<le> length (dropWhile is_ws s)"
      using len [of "rev (dropWhile is_ws s)"] by (simp add: trim_def)
    ultimately show False using assms(1) by simp
  qed
  show "\<not> is_ws (last s)"
  proof
    assume w: "is_ws (last s)"
    have d: "dropWhile is_ws s = s" using a assms(2) by (cases s) simp_all
    obtain ys y where s: "s = ys @ [y]" using assms(2) by (cases s rule: rev_cases) auto
    have wy: "is_ws y" using w by (simp add: s)
    have "dropWhile is_ws (rev s) = dropWhile is_ws (rev ys)" using wy by (simp add: s)
    then have "length (dropWhile is_ws (rev s)) \<le> length ys"
      using len [of "rev ys"] by simp
    then have "length (trim s) \<le> length ys" unfolding trim_def d by simp
    moreover have "length s = Suc (length ys)" by (simp add: s)
    ultimately show False using assms(1) by simp
  qed
qed

text \<open>
  Claim C8, as stated: for every fenced block whose inside is valid JSON the sanitizer
  returns exactly the inside, and it parses. It fails: when the inside is the JSON string
  \<^verbatim>\<open>"a{b"\<close> the result is \<^verbatim>\<open>{b""}\<close>, which does not parse; when the inside is the JSON
  string \<^verbatim>\<open>"a}b"\<close> the result is the other string \<^verbatim>\<open>"a}"\<close>; when the inside holds
  three backticks in a string, the lazy group stops there and the result is another
  object.
\<close>

theorem fenced_json_not_extracted:
  \<open>JSON_parse (js ''"a{b"'') = Inr (JString (js ''a{b''))
   \<and> cleanJsonResponse (ticks @ [10] @ js ''"a{b"'' @ [10] @ ticks) = Inr (js ''{b""}'')
   \<and> JSON_parse (js ''{b""}'') = Inl SyntaxError
   \<and> JSON_parse (js ''"a}b"'') = Inr (JString (js ''a}b''))
   \<and> cleanJsonResponse (ticks @ [10] @ js ''"a}b"'' @ [10] @ ticks) = Inr (js ''"a}"'')
   \<and> JSON_parse (js ''{"a":"```"}'') = Inr (JObject [(js ''a'', JString ticks)])
   \<and> cleanJsonResponse (ticks @ js ''json'' @ [10] @ js ''{"a":"```"}'' @ [10] @ ticks) =
       Inr (js ''{"a":""}'')\<close>
  by (simp add: js_def clean_defs repair_defs parse_defs)

text \<open>
  Claim C8, amended. Take a text that is a fence, an optional tag \<^verbatim>\<open>json\<close>, white space,
  a body, white space and a fence, with white space allowed before and after the whole.
  When the body is valid JSON with no white space around it (the white space of the
  inside counts with the white space on either side of the body), begins with \<^verbatim>\<open>{\<close> or
  \<^verbatim>\<open>[\<close> or holds neither, ends with \<^verbatim>\<open>}\<close> or \<^verbatim>\<open>]\<close> or holds neither, and holds no
  three backticks in a row, the sanitizer returns exactly the body. So the inside may be
  an object, an array, or a string, number or literal without brackets. In particular
  the fenced \<^verbatim>\<open>{"x":1}\<close> tagged \<^verbatim>\<open>json\<close>, with a line feed on each side, comes back as
  \<^verbatim>\<open>{"x":1}\<close>, and the fenced \<^verbatim>\<open>"abc"\<close> without a tag comes back as \<^verbatim>\<open>"abc"\<close>.
\<close>

theorem sanitizer_extracts_fenced:
  assumes tag: "tag = [] \<or> tag = js ''json''"
    and w0: "list_all is_ws w0" and w1: "list_all is_ws w1"
    and w2: "list_all is_ws w2" and w3: "list_all is_ws w3"
    and valid: "JSON_parse body = Inr v"
    and bare: "trim body = body"
    and first: "startsWith body 123 \<or> startsWith body 91 \<or> (123 \<notin> set body \<and> 91 \<notin> set body)"
    and last: "endsWith body 125 \<or> endsWith body 93 \<or> (125 \<notin> set body \<and> 93 \<notin> set body)"
    and noticks: "\<not> sublist ticks body"
  shows "cleanJsonResponse (w0 @ ticks @ tag @ w1 @ body @ w2 @ ticks @ w3) = Inr body"
proof -
  have ne: "body \<noteq> []" and hd_b: "hd body \<noteq> 106" and last_b: "last body \<noteq> 96"
    using valid_ends [OF valid] by blast+
  have hd_ws: "\<not> is_ws (hd body)" and last_ws: "\<not> is_ws (last body)"
    using trim_fixed [OF bare ne] by blast+
  define xs where "xs = body @ w2"
  define g where "g = (if xs \<noteq> [] \<and> last xs = 10 then butlast xs else xs)"
  have last_xs: "last xs \<noteq> 96"
  proof (cases "w2 = []")
    case True
    then show ?thesis using last_b by (simp add: xs_def)
  next
    case False
    then have "is_ws (last w2)" using w2 by (simp add: list_all_iff)
    then have "last w2 \<noteq> 96" by (auto simp: is_ws_def)
    then show ?thesis using False by (simp add: xs_def)
  qed
  have "\<not> sublist ticks xs" unfolding xs_def using noticks w2 by (rule no_ticks_ws)
  then have "\<not> sublist ticks (xs @ [96, 96])" using last_xs by (intro no_ticks_ext) simp_all
  then have group: "fence_group (xs @ ticks) = Some g"
    unfolding g_def by (rule fence_group_end)
  have trim_g: "trim g = body"
  proof (cases "xs \<noteq> [] \<and> last xs = 10")
    case True
    have "is_ws 10" by (simp add: is_ws_def)
    then have "w2 \<noteq> []" using True last_ws by (auto simp: xs_def)
    then have "g = body @ butlast w2" using True by (simp add: g_def xs_def butlast_append)
    moreover have "list_all is_ws (butlast w2)"
      using w2 by (auto simp: list_all_iff dest: in_set_butlastD)
    ultimately show ?thesis using trim_append_ws [OF ne hd_ws last_ws] by simp
  next
    case False
    then have "g = body @ w2" by (auto simp: g_def xs_def)
    then show ?thesis using trim_append_ws [OF ne hd_ws last_ws w2] by simp
  qed
  have "fence_ws (xs @ ticks) = Some g"
    using fence_ws_body [of "xs @ ticks"] ne hd_ws group by (simp add: xs_def)
  then have ws: "fence_ws (w1 @ xs @ ticks) = Some g" by (rule fence_ws_skip [OF w1])
  have hd_rest: "hd (w1 @ xs @ ticks) \<noteq> 106"
  proof (cases "w1 = []")
    case True
    then show ?thesis using hd_b ne by (simp add: xs_def)
  next
    case False
    then have "is_ws (hd w1)" using w1 by (cases w1) simp_all
    then have "hd w1 \<noteq> 106" by (auto simp: is_ws_def)
    then show ?thesis using False by simp
  qed
  have "w1 @ xs @ ticks \<noteq> []" by (simp add: ticks_def)
  then have nj: "\<not> prefix (js ''json'') (w1 @ xs @ ticks)"
    using hd_rest by (cases "w1 @ xs @ ticks") (auto simp: js_def)
  have tagged: "fence_tag (tag @ w1 @ xs @ ticks) = Some g"
  proof (cases "tag = []")
    case True
    then show ?thesis using nj ws by (simp add: fence_tag_def)
  next
    case False
    then have t: "tag = js ''json''" using tag by simp
    have "length (js ''json'') = 4" by (simp add: js_def)
    then show ?thesis using ws by (simp add: fence_tag_def t)
  qed
  define input where "input = ticks @ tag @ w1 @ xs @ ticks"
  have "fence_here input = Some g"
    using tagged by (simp add: fence_here_def input_def ticks_def)
  moreover have "input = 96 # tl input" by (simp add: input_def ticks_def)
  ultimately have m: "codeBlockMatch input = Some g"
    by (metis codeBlockMatch.simps(2) option.simps(5))
  have "input \<noteq> []" and "\<not> is_ws (hd input)" and "\<not> is_ws (last input)"
    by (simp_all add: input_def ticks_def is_ws_def)
  then have "trim (input @ w3) = input" using w3 by (rule trim_append_ws)
  moreover have "trim (w0 @ input @ w3) = trim (input @ w3)"
    using w0 by (simp add: trim_def dropWhile_append2 list_all_iff)
  ultimately have tr: "trim (w0 @ input @ w3) = input" by simp
  have "strip_fence input = body" using m trim_g by (simp add: strip_fence_def)
  moreover have "strip_before body = body" using first by (rule strip_before_id)
  moreover have "strip_after body = body" using last by (rule strip_after_id)
  ultimately have "cleanJsonResponse (w0 @ input @ w3) = Inr body"
    using valid tr by (simp add: cleanJsonResponse_def)
  then show ?thesis by (simp add: input_def xs_def)
qed

theorem sanitizer_extracts_fenced_witness:
  \<open>cleanJsonResponse (ticks @ js ''json'' @ [10] @ js ''{"x":1}'' @ [10] @ ticks) =
     Inr (js ''{"x":1}'')
   \<and> cleanJsonResponse (ticks @ [10] @ js ''"abc"'' @ [10] @ ticks @ [10]) = Inr (js ''"abc"'')\<close>
proof -
  have ws: "list_all is_ws []" "list_all is_ws [10]"
    by (simp_all add: is_ws_def)
  have 1: \<open>JSON_parse (js ''{"x":1}'') = Inr (JObject [(js ''x'', JNumber 1)])\<close>
    by (simp add: js_def parse_defs)
  have 2: \<open>trim (js ''{"x":1}'') = js ''{"x":1}''\<close>
    by (simp add: js_def trim_def is_ws_def)
  have 3: \<open>startsWith (js ''{"x":1}'') 123\<close>
    by (simp add: js_def startsWith_def)
  have 4: \<open>endsWith (js ''{"x":1}'') 125\<close>
    by (simp add: js_def endsWith_def)
  have 5: \<open>\<not> sublist ticks (js ''{"x":1}'')\<close>
    by (simp add: js_def ticks_def sublist_code)
  have 6: \<open>JSON_parse (js ''"abc"'') = Inr (JString (js ''abc''))\<close>
    by (simp add: js_def parse_defs)
  have 7: \<open>trim (js ''"abc"'') = js ''"abc"''\<close>
    by (simp add: js_def trim_def is_ws_def)
  have 8: \<open>123 \<notin> set (js ''"abc"'') \<and> 91 \<notin> set (js ''"abc"'')\<close>
    by (simp add: js_def)
  have 9: \<open>125 \<notin> set (js ''"abc"'') \<and> 93 \<notin> set (js ''"abc"'')\<close>
    by (simp add: js_def)
  have 10: \<open>\<not> sublist ticks (js ''"abc"'')\<close>
    by (simp add: js_def ticks_def sublist_code)
  have a: \<open>cleanJsonResponse ([] @ ticks @ js ''json'' @ [10] @ js ''{"x":1}'' @ [10] @ ticks @ [])
      = Inr (js ''{"x":1}'')\<close>
    using sanitizer_extracts_fenced [of \<open>js ''json''\<close> "[]" "[10]" "[10]" "[]",
        OF _ ws(1) ws(2) ws(2) ws(1) 1 2 _ _ 5] 3 4
    by blast
  have b: \<open>cleanJsonResponse ([] @ ticks @ [] @ [10] @ js ''"abc"'' @ [10] @ ticks @ [10])
      = Inr (js ''"abc"'')\<close>
    using sanitizer_extracts_fenced [of "[]" "[]" "[10]" "[10]" "[10]",
        OF _ ws(1) ws(2) ws(2) ws(2) 6 7 _ _ 10] 8 9
    by blast
  show ?thesis using a b by simp
qed

end
